theory Spec2Isabelle
  imports Complex_Main "HOL-Library.Word"
begin

section \<open>Python and NumPy primitives\<close>

text \<open>
  The engine of \<^verbatim>\<open>kspace.py\<close> works on two-dimensional NumPy arrays. An array is
  modelled as the list of its rows; float32 and complex64 samples are modelled by the exact
  reals and complex numbers, so no rounding error is represented. The exceptions the
  modelled code can raise are values of \<open>py_error\<close>.
\<close>

datatype py_error = ValueError | IndexError | ZeroDivisionError

type_synonym 'a ndarray = "'a list list"

text \<open>\<^verbatim>\<open>a.shape\<close>: the row count and the length of the first row. An array without rows is
  the empty list.\<close>

definition shape0 :: "'a ndarray \<Rightarrow> nat" where
  "shape0 a = length a"

definition shape1 :: "'a ndarray \<Rightarrow> nat" where
  "shape1 a = (case a of [] \<Rightarrow> 0 | r # _ \<Rightarrow> length r)"

definition shape :: "'a ndarray \<Rightarrow> nat \<times> nat" where
  "shape a = (shape0 a, shape1 a)"

text \<open>An array is rectangular when every row has \<open>shape1\<close> cells.\<close>

definition rect :: "'a ndarray \<Rightarrow> bool" where
  "rect a = list_all (\<lambda>r. length r = shape1 a) a"

text \<open>\<^verbatim>\<open>a.size\<close> and the row-major view \<^verbatim>\<open>a.flat\<close>.\<close>

definition size_of :: "'a ndarray \<Rightarrow> nat" where
  "size_of a = length (concat a)"

text \<open>\<^verbatim>\<open>int(x)\<close> on a float truncates towards zero.\<close>

definition py_int :: "real \<Rightarrow> int" where
  "py_int x = (if 0 \<le> x then \<lfloor>x\<rfloor> else \<lceil>x\<rceil>)"

text \<open>\<^verbatim>\<open>round(x)\<close> on a float rounds to the nearest integer, a tie to the even one.\<close>

definition py_round :: "real \<Rightarrow> int" where
  "py_round x =
     (let f = \<lfloor>x\<rfloor>; d = x - of_int f
      in if d < 1 / 2 then f else if 1 / 2 < d then f + 1
         else if even f then f else f + 1)"

text \<open>A start or stop bound \<open>i\<close> of a slice with positive step over \<open>n\<close> items: a
  negative bound counts from the end, and the result is clipped to \<open>0..n\<close>.\<close>

definition slice_bound :: "nat \<Rightarrow> int \<Rightarrow> nat" where
  "slice_bound n i = (if i < 0 then nat (int n + i) else min (nat i) n)"

text \<open>\<^verbatim>\<open>a[lo:hi] = 0\<close> on rows, for normalised bounds.\<close>

definition zero_rows :: "nat \<Rightarrow> nat \<Rightarrow> 'a::zero ndarray \<Rightarrow> 'a ndarray" where
  "zero_rows lo hi a =
     map (\<lambda>(i, row). if lo \<le> i \<and> i < hi then map (\<lambda>_. 0) row else row) (enumerate 0 a)"

text \<open>\<^verbatim>\<open>a[mask] = 0\<close> for a boolean mask given as a predicate on (row, column).\<close>

definition mask_zero :: "(nat \<Rightarrow> nat \<Rightarrow> bool) \<Rightarrow> 'a::zero ndarray \<Rightarrow> 'a ndarray" where
  "mask_zero m a =
     map (\<lambda>(i, row). map (\<lambda>(j, v). if m i j then 0 else v) (enumerate 0 row)) (enumerate 0 a)"

text \<open>Writing a flat buffer back through the view \<^verbatim>\<open>a.flat\<close>: the cells of \<open>xs\<close> are laid
  out row by row in the shape of \<open>a\<close>.\<close>

fun reshape_like :: "'b list list \<Rightarrow> 'a list \<Rightarrow> 'a list list" where
  "reshape_like [] xs = []"
| "reshape_like (r # rs) xs = take (length r) xs # reshape_like rs (drop (length r) xs)"

text \<open>\<^verbatim>\<open>a.flat[lo::] = 0\<close> for a normalised start.\<close>

definition zero_flat_from :: "nat \<Rightarrow> 'a::zero ndarray \<Rightarrow> 'a ndarray" where
  "zero_flat_from lo a =
     reshape_like a (take lo (concat a) @ replicate (size_of a - lo) 0)"

text \<open>A buffer of \<open>r * c\<close> cells read as \<open>r\<close> rows of \<open>c\<close> cells.\<close>

definition unflatten :: "nat \<Rightarrow> nat \<Rightarrow> 'a list \<Rightarrow> 'a ndarray" where
  "unflatten r c xs = map (\<lambda>i. take c (drop (i * c) xs)) [0..<r]"

text \<open>\<^verbatim>\<open>a.resize((r, c))\<close>: the buffer is cut or padded with zeros to \<open>r * c\<close> cells and read
  in the new shape.\<close>

definition np_resize :: "nat \<times> nat \<Rightarrow> 'a::zero ndarray \<Rightarrow> 'a ndarray" where
  "np_resize sz a =
     (case sz of (r, c) \<Rightarrow>
        unflatten r c (take (r * c) (concat a) @ replicate (r * c - size_of a) 0))"

text \<open>Broadcasting one axis: a list of length \<open>n\<close> is taken as it is, a list of length 1
  is repeated, anything else cannot be broadcast.\<close>

definition broadcast_list :: "nat \<Rightarrow> 'a list \<Rightarrow> 'a list option" where
  "broadcast_list n xs =
     (if length xs = n then Some xs
      else if length xs = 1 then Some (replicate n (hd xs))
      else None)"

text \<open>The source \<open>src\<close> broadcast to \<open>r\<close> rows of \<open>c\<close> cells, as an assignment
  \<^verbatim>\<open>dst[...] = src\<close> or an \<^verbatim>\<open>out=\<close> argument does; \<^verbatim>\<open>ValueError\<close> when the shapes
  do not fit.\<close>

definition broadcast_to :: "nat \<Rightarrow> nat \<Rightarrow> 'a ndarray \<Rightarrow> py_error + 'a ndarray" where
  "broadcast_to r c src =
     (case broadcast_list r src of
        None \<Rightarrow> Inl ValueError
      | Some rows \<Rightarrow>
          if list_all (\<lambda>row. broadcast_list c row \<noteq> None) rows
          then Inr (map (\<lambda>row. the (broadcast_list c row)) rows)
          else Inl ValueError)"

text \<open>\<^verbatim>\<open>dst[:] = src\<close>: the new contents of \<open>dst\<close>.\<close>

definition np_assign :: "'b ndarray \<Rightarrow> 'a ndarray \<Rightarrow> py_error + 'a ndarray" where
  "np_assign dst src = broadcast_to (shape0 dst) (shape1 dst) src"

text \<open>\<^verbatim>\<open>np.roll(xs, s)\<close> along one axis: the item at \<open>i\<close> moves to \<open>(i + s) mod n\<close>.\<close>

definition np_roll :: "int \<Rightarrow> 'a list \<Rightarrow> 'a list" where
  "np_roll s xs = (if xs = [] then [] else rotate (nat ((- s) mod int (length xs))) xs)"

text \<open>\<^verbatim>\<open>np.fft.fftshift\<close> rolls every axis by \<open>n // 2\<close>, \<^verbatim>\<open>np.fft.ifftshift\<close> by
  \<open>- (n // 2)\<close>.\<close>

definition fftshift :: "'a ndarray \<Rightarrow> 'a ndarray" where
  "fftshift a = map (np_roll (int (shape1 a div 2))) (np_roll (int (shape0 a div 2)) a)"

definition ifftshift :: "'a ndarray \<Rightarrow> 'a ndarray" where
  "ifftshift a = map (np_roll (- int (shape1 a div 2))) (np_roll (- int (shape0 a div 2)) a)"

text \<open>The discrete Fourier transform of \<^verbatim>\<open>np.fft\<close>: the forward transform has the negative
  exponent and no scaling, the inverse transform the positive exponent and the factor
  \<open>1 / n\<close>. The two-dimensional transforms work along the last axis, then along the first.\<close>

definition twiddle :: "nat \<Rightarrow> int \<Rightarrow> complex" where
  "twiddle n k = cis (2 * pi * real_of_int k / real n)"

definition fft1 :: "complex list \<Rightarrow> complex list" where
  "fft1 xs =
     (let n = length xs
      in map (\<lambda>u. sum_list (map (\<lambda>i. xs ! i * twiddle n (- (int u * int i))) [0..<n])) [0..<n])"

definition ifft1 :: "complex list \<Rightarrow> complex list" where
  "ifft1 xs =
     (let n = length xs
      in map (\<lambda>u. sum_list (map (\<lambda>i. xs ! i * twiddle n (int u * int i)) [0..<n])
                     / of_nat n) [0..<n])"

definition fft_axis0 :: "complex ndarray \<Rightarrow> complex ndarray" where
  "fft_axis0 a =
     (let n = shape0 a
      in map (\<lambda>u. map (\<lambda>j. sum_list (map (\<lambda>i. a ! i ! j * twiddle n (- (int u * int i))) [0..<n]))
                     [0..<shape1 a]) [0..<n])"

definition ifft_axis0 :: "complex ndarray \<Rightarrow> complex ndarray" where
  "ifft_axis0 a =
     (let n = shape0 a
      in map (\<lambda>u. map (\<lambda>j. sum_list (map (\<lambda>i. a ! i ! j * twiddle n (int u * int i)) [0..<n])
                                / of_nat n)
                     [0..<shape1 a]) [0..<n])"

definition fft2 :: "complex ndarray \<Rightarrow> complex ndarray" where
  "fft2 a = fft_axis0 (map fft1 a)"

definition ifft2 :: "complex ndarray \<Rightarrow> complex ndarray" where
  "ifft2 a = ifft_axis0 (map ifft1 a)"

text \<open>\<^verbatim>\<open>a.max()\<close> and \<^verbatim>\<open>a.min()\<close> of a real array; a zero-size array raises
  \<^verbatim>\<open>ValueError\<close>.\<close>

definition np_max :: "real ndarray \<Rightarrow> py_error + real" where
  "np_max a = (if concat a = [] then Inl ValueError else Inr (Max (set (concat a))))"

definition np_min :: "real ndarray \<Rightarrow> py_error + real" where
  "np_min a = (if concat a = [] then Inl ValueError else Inr (Min (set (concat a))))"

text \<open>NumPy orders complex numbers by the real part, then by the imaginary part;
  \<^verbatim>\<open>a.max()\<close> of a complex array is the greatest cell in that order.\<close>

definition complex_less :: "complex \<Rightarrow> complex \<Rightarrow> bool" where
  "complex_less a b = (Re a < Re b \<or> (Re a = Re b \<and> Im a < Im b))"

definition np_max_complex :: "complex ndarray \<Rightarrow> py_error + complex" where
  "np_max_complex a =
     (case concat a of
        [] \<Rightarrow> Inl ValueError
      | z # zs \<Rightarrow> Inr (fold (\<lambda>x m. if complex_less m x then x else m) zs z))"

text \<open>\<^verbatim>\<open>np.mean\<close> of a real array.\<close>

definition np_mean :: "real ndarray \<Rightarrow> real" where
  "np_mean a = sum_list (concat a) / real (size_of a)"

text \<open>The cast of a float to \<^verbatim>\<open>uint8\<close> drops the fraction; values outside 0..255 are
  taken modulo 256 here.\<close>

definition to_uint8 :: "real \<Rightarrow> 8 word" where
  "to_uint8 x = word_of_int (py_int x)"

text \<open>The indices of the slice \<^verbatim>\<open>[start::step]\<close> over \<open>n\<close> items, in the order of the
  slice. With a negative step a negative start counts from the end and the slice runs down
  to index 0.\<close>

definition slice_from :: "nat \<Rightarrow> int \<Rightarrow> int \<Rightarrow> nat list" where
  "slice_from n start step =
     (if 0 < step then
        (let s = slice_bound n start
         in map (\<lambda>t. s + t * nat step) [0..<(n - s + nat step - 1) div nat step])
      else if step < 0 then
        (let s = (if start < 0 then int n + start else min start (int n - 1))
         in if s < 0 then [] else map (\<lambda>t. nat s - t * nat (- step)) [0..<nat s div nat (- step) + 1])
      else [])"

text \<open>\<^verbatim>\<open>dst[idx] = src\<close> for a row slice with indices \<open>idx\<close>: the source is broadcast to the
  slice, then written row by row.\<close>

definition assign_rows :: "nat list \<Rightarrow> 'a ndarray \<Rightarrow> 'a ndarray \<Rightarrow> py_error + 'a ndarray" where
  "assign_rows idx src dst =
     (case broadcast_to (length idx) (shape1 dst) src of
        Inl e \<Rightarrow> Inl e
      | Inr rows \<Rightarrow> Inr (fold (\<lambda>(i, row) d. d[i := row]) (zip idx rows) dst))"

text \<open>The rows of a slice, \<^verbatim>\<open>a[idx]\<close>.\<close>

definition take_rows :: "nat list \<Rightarrow> 'a ndarray \<Rightarrow> 'a ndarray" where
  "take_rows idx a = map (\<lambda>i. a ! i) idx"

text \<open>An index \<open>i\<close> into an axis of \<open>n\<close> items: a negative index counts from the end,
  an index outside \<open>-n..n-1\<close> raises \<^verbatim>\<open>IndexError\<close>.\<close>

definition py_index :: "nat \<Rightarrow> int \<Rightarrow> py_error + nat" where
  "py_index n i =
     (if 0 \<le> i \<and> i < int n then Inr (nat i)
      else if i < 0 \<and> - int n \<le> i then Inr (nat (int n + i))
      else Inl IndexError)"

text \<open>\<^verbatim>\<open>a[(r, c)] = v\<close>.\<close>

definition set_cell :: "'a ndarray \<Rightarrow> int \<times> int \<Rightarrow> 'a \<Rightarrow> py_error + 'a ndarray" where
  "set_cell a rc v =
     (case py_index (shape0 a) (fst rc) of
        Inl e \<Rightarrow> Inl e
      | Inr i \<Rightarrow>
          (case py_index (shape1 a) (snd rc) of
             Inl e \<Rightarrow> Inl e
           | Inr j \<Rightarrow> Inr (a[i := (a ! i)[j := v]])))"

section \<open>Transforms and display preparation\<close>

text \<open>\<^verbatim>\<open>ImageManipulators.np_ifft\<close>: the magnitude of the centred inverse transform, written
  into \<open>out\<close>. The result is the new contents of \<open>out\<close>.\<close>

definition np_ifft :: "complex ndarray \<Rightarrow> real ndarray \<Rightarrow> py_error + real ndarray" where
  "np_ifft kspace out = np_assign out (map (map cmod) (fftshift (ifft2 (ifftshift kspace))))"

text \<open>\<^verbatim>\<open>ImageManipulators.np_fft\<close>: the centred forward transform of a real image, written into
  \<open>out\<close>.\<close>

definition np_fft :: "real ndarray \<Rightarrow> complex ndarray \<Rightarrow> py_error + complex ndarray" where
  "np_fft img out = np_assign out (fftshift (fft2 (ifftshift (map (map complex_of_real) img))))"

text \<open>\<^verbatim>\<open>ImageManipulators.normalise\<close>.\<close>

definition normalise :: "real ndarray \<Rightarrow> py_error + real ndarray" where
  "normalise f =
     (case np_min f of
        Inl e \<Rightarrow> Inl e
      | Inr fmin \<Rightarrow>
          (case np_max f of
             Inl e \<Rightarrow> Inl e
           | Inr fmax \<Rightarrow>
               if fmax \<noteq> fmin then
                 (let coeff = fmax - fmin
                  in Inr (map (map (\<lambda>x. real_of_int \<lfloor>(x - fmin) / coeff * 255\<rfloor>)) f))
               else Inr f))"

text \<open>The window of \<^verbatim>\<open>apply_window\<close>: the dictionary with the keys \<^verbatim>\<open>ww\<close> and
  \<^verbatim>\<open>wc\<close>.\<close>

record window =
  ww :: real
  wc :: real

text \<open>One cell of \<^verbatim>\<open>np.piecewise(f, [f <= w_low, f > w_high], [0, 255, lambda x: ...])\<close>:
  the output starts at zero, every condition in turn writes its value where it holds, and
  the last function is applied where no condition holds.\<close>

definition window_cell :: "real \<Rightarrow> real \<Rightarrow> real \<Rightarrow> real \<Rightarrow> real \<Rightarrow> real" where
  "window_cell w_low w_high wc_abs ww_abs x =
     (let y0 = 0;
          y1 = (if x \<le> w_low then 0 else y0);
          y2 = (if x > w_high then 255 else y1)
      in if \<not> (x \<le> w_low \<or> x > w_high) then ((x - wc_abs) / ww_abs + 0.5) * 255 else y2)"

text \<open>\<^verbatim>\<open>ImageManipulators.apply_window\<close>; \<open>None\<close> is the absent window.\<close>

definition apply_window :: "real ndarray \<Rightarrow> window option \<Rightarrow> py_error + real ndarray" where
  "apply_window f window_val =
     (case np_max f of
        Inl e \<Rightarrow> Inl e
      | Inr fmax \<Rightarrow>
          (case np_min f of
             Inl e \<Rightarrow> Inl e
           | Inr fmin \<Rightarrow>
               if fmax \<noteq> fmin then
                 (let ww_abs = (case window_val of Some w \<Rightarrow> ww w * fmax | None \<Rightarrow> fmax);
                      wc_abs = (case window_val of Some w \<Rightarrow> wc w * fmax | None \<Rightarrow> ww_abs / 2);
                      w_low = wc_abs - ww_abs / 2;
                      w_high = wc_abs + ww_abs / 2
                  in Inr (map (map (window_cell w_low w_high wc_abs ww_abs)) f))
               else Inr f))"

section \<open>Row and mask filters\<close>

text \<open>\<^verbatim>\<open>ImageManipulators.reduced_scan_percentage\<close>.\<close>

definition reduced_scan_percentage :: "complex ndarray \<Rightarrow> real \<Rightarrow> complex ndarray" where
  "reduced_scan_percentage kspace percentage =
     (if py_int percentage < 100 then
        (let percentage_delete = 1 - percentage / 100;
             lines_to_delete = py_round (percentage_delete * real (shape0 kspace) / 2)
         in if lines_to_delete \<noteq> 0 then
              zero_rows (slice_bound (shape0 kspace) (- lines_to_delete)) (shape0 kspace)
                (zero_rows 0 (slice_bound (shape0 kspace) lines_to_delete) kspace)
            else kspace)
      else kspace)"

text \<open>The mask \<^verbatim>\<open>x * x + y * y <= r * r\<close> shared by the high-pass and the low-pass filter,
  over the centred coordinate grids \<^verbatim>\<open>np.ogrid[-a:rows - a, -b:cols - b]\<close>.\<close>

definition circle_mask :: "nat \<Rightarrow> nat \<Rightarrow> real \<Rightarrow> nat \<Rightarrow> nat \<Rightarrow> bool" where
  "circle_mask rows cols radius i j =
     (let r = sqrt (real (rows * rows + cols * cols)) / 2 * radius / 100;
          a = rows div 2; b = cols div 2;
          y = int i - int a; x = int j - int b
      in real_of_int (x * x + y * y) \<le> r * r)"

text \<open>\<^verbatim>\<open>ImageManipulators.high_pass_filter\<close>.\<close>

definition high_pass_filter :: "complex ndarray \<Rightarrow> real \<Rightarrow> complex ndarray" where
  "high_pass_filter kspace radius =
     (if radius > 0 then
        mask_zero (circle_mask (shape0 kspace) (shape1 kspace) radius) kspace
      else kspace)"

text \<open>\<^verbatim>\<open>ImageManipulators.low_pass_filter\<close>.\<close>

definition low_pass_filter :: "complex ndarray \<Rightarrow> real \<Rightarrow> complex ndarray" where
  "low_pass_filter kspace radius =
     (if radius < 100 then
        mask_zero (\<lambda>i j. \<not> circle_mask (shape0 kspace) (shape1 kspace) radius i j) kspace
      else kspace)"

text \<open>\<^verbatim>\<open>ImageManipulators.filling_linear\<close>: the start index is
  \<^verbatim>\<open>int(kspace.size * value // 100)\<close>.\<close>

definition filling_linear :: "complex ndarray \<Rightarrow> real \<Rightarrow> complex ndarray" where
  "filling_linear kspace v =
     zero_flat_from
       (slice_bound (size_of kspace) (py_int (of_int \<lfloor>real (size_of kspace) * v / 100\<rfloor>)))
       kspace"

text \<open>\<^verbatim>\<open>kspace += current_noise\<close>: the real noise is broadcast to the shape of the k-space and
  added cell by cell.\<close>

definition np_iadd :: "complex ndarray \<Rightarrow> real ndarray \<Rightarrow> py_error + complex ndarray" where
  "np_iadd kspace noise =
     (case np_assign kspace noise of
        Inl e \<Rightarrow> Inl e
      | Inr noise' \<Rightarrow> Inr (map2 (map2 (\<lambda>z x. z + complex_of_real x)) kspace noise'))"

text \<open>\<^verbatim>\<open>ImageManipulators.add_noise\<close>. The draw of \<^verbatim>\<open>np.random.randn(*kspace.shape)\<close> is the
  parameter \<open>randn\<close>, the sample for each cell. The result is the new k-space and the new
  noise map.\<close>

definition add_noise ::
  "complex ndarray \<Rightarrow> real \<Rightarrow> real ndarray \<Rightarrow> bool \<Rightarrow> (nat \<Rightarrow> nat \<Rightarrow> real)
   \<Rightarrow> py_error + (complex ndarray \<times> real ndarray)" where
  "add_noise kspace signal_to_noise current_noise generate_new_noise randn =
     (if signal_to_noise < 30 then
        (case (if generate_new_noise then
                 (let mean_signal = np_mean (map (map cmod) kspace);
                      std_noise = mean_signal / (10 powr (signal_to_noise / 20))
                  in np_assign current_noise
                       (map (\<lambda>(i, row). map (\<lambda>(j, _). std_noise * randn i j) (enumerate 0 row))
                          (enumerate 0 kspace)))
               else Inr current_noise) of
           Inl e \<Rightarrow> Inl e
         | Inr noise \<Rightarrow>
             (case np_iadd kspace noise of
                Inl e \<Rightarrow> Inl e
              | Inr kspace' \<Rightarrow> Inr (kspace', noise)))
      else Inr (kspace, current_noise))"

text \<open>\<^verbatim>\<open>ImageManipulators.partial_fourier\<close>. The mirrored array is
  \<^verbatim>\<open>np.roll(kspace[::-1, ::-1], s, axis=(0, 1))\<close>, a copy, so the rows written come from the
  k-space as it was.\<close>

definition partial_fourier :: "complex ndarray \<Rightarrow> real \<Rightarrow> bool \<Rightarrow> complex ndarray" where
  "partial_fourier kspace percentage zf =
     (if py_int percentage \<noteq> 100 then
        (let percentage' = 1 - percentage / 100;
             rows_to_skip = py_round (percentage' * (real (shape0 kspace) / 2 - 1));
             lo = slice_bound (shape0 kspace) (- rows_to_skip)
         in if rows_to_skip \<noteq> 0 \<and> zf then zero_rows lo (shape0 kspace) kspace
            else if rows_to_skip \<noteq> 0 then
              (let shift_hor = (if even (shape1 kspace) then 1 else 0);
                   shift_ver = (if odd (shape0 kspace) then 0 else 1);
                   mirrored = map (np_roll shift_hor) (np_roll shift_ver (map rev (rev kspace)));
                   kspace' = take lo kspace @ drop lo mirrored
               in take lo kspace' @ map (map cnj) (drop lo kspace'))
            else kspace)
      else kspace)"

text \<open>\<^verbatim>\<open>np.hamming(M)\<close> and \<^verbatim>\<open>ImageManipulators.hamming\<close>.\<close>

definition np_hamming :: "nat \<Rightarrow> real list" where
  "np_hamming M =
     (if M < 1 then [] else if M = 1 then [1]
      else map (\<lambda>n. 0.54 - 0.46 * cos (2 * pi * real n / real (M - 1))) [0..<M])"

definition hamming :: "complex ndarray \<Rightarrow> complex ndarray" where
  "hamming kspace =
     map (\<lambda>(i, row).
            map (\<lambda>(j, v). v * complex_of_real (np_hamming (shape0 kspace) ! i
                                                 * np_hamming (shape1 kspace) ! j))
              (enumerate 0 row))
       (enumerate 0 kspace)"

text \<open>\<^verbatim>\<open>ImageManipulators.decrease_dc\<close>.\<close>

definition decrease_dc :: "complex ndarray \<Rightarrow> int \<Rightarrow> py_error + complex ndarray" where
  "decrease_dc kspace percentage =
     (let x = shape0 kspace div 2; y = shape1 kspace div 2
      in if x < shape0 kspace \<and> y < shape1 kspace then
           Inr (kspace[x := (kspace ! x)[y := kspace ! x ! y
                                * complex_of_real (real_of_int (100 - percentage) / 100)]])
         else Inl IndexError)"

text \<open>\<^verbatim>\<open>ImageManipulators.apply_spikes\<close>: the intensity is computed once, before the loop
  over the spikes.\<close>

fun write_spikes :: "complex ndarray \<Rightarrow> (int \<times> int) list \<Rightarrow> complex \<Rightarrow> py_error + complex ndarray" where
  "write_spikes kspace [] v = Inr kspace"
| "write_spikes kspace (spike # spikes) v =
     (case set_cell kspace spike v of
        Inl e \<Rightarrow> Inl e
      | Inr kspace' \<Rightarrow> write_spikes kspace' spikes v)"

definition apply_spikes :: "complex ndarray \<Rightarrow> (int \<times> int) list \<Rightarrow> py_error + complex ndarray" where
  "apply_spikes kspace spikes =
     (case np_max_complex kspace of
        Inl e \<Rightarrow> Inl e
      | Inr m \<Rightarrow> (let spike_intensity = m * 2 in write_spikes kspace spikes spike_intensity))"

text \<open>\<^verbatim>\<open>ImageManipulators.apply_patches\<close>: a patch is (row, column, size).\<close>

definition zero_block :: "nat \<Rightarrow> nat \<Rightarrow> nat \<Rightarrow> nat \<Rightarrow> 'a::zero ndarray \<Rightarrow> 'a ndarray" where
  "zero_block rlo rhi clo chi a =
     mask_zero (\<lambda>i j. rlo \<le> i \<and> i < rhi \<and> clo \<le> j \<and> j < chi) a"

fun apply_patches :: "complex ndarray \<Rightarrow> (int \<times> int \<times> int) list \<Rightarrow> complex ndarray" where
  "apply_patches kspace [] = kspace"
| "apply_patches kspace ((x, y, sz) # patches) =
     apply_patches
       (zero_block (slice_bound (shape0 kspace) (max (x - sz) 0))
                   (slice_bound (shape0 kspace) (x + sz + 1))
                   (slice_bound (shape1 kspace) (max (y - sz) 0))
                   (slice_bound (shape1 kspace) (y + sz + 1)) kspace)
       patches"

text \<open>\<^verbatim>\<open>ImageManipulators.filling_centric\<close>; \<open>ksp_centric\<close> starts as
  \<^verbatim>\<open>np.zeros_like(kspace)\<close>.\<close>

definition zeros_like :: "'b ndarray \<Rightarrow> 'a::zero ndarray" where
  "zeros_like a = map (map (\<lambda>_. 0)) a"

definition filling_centric :: "complex ndarray \<Rightarrow> real \<Rightarrow> py_error + complex ndarray" where
  "filling_centric kspace v =
     (let n = shape0 kspace;
          even_idx = slice_from n 0 2;
          odd_idx = slice_from n 1 2;
          lower = slice_from n (int (n div 2)) 1;
          upper = slice_from n (int (n div 2) - 1) (- 1)
      in case assign_rows even_idx (take_rows lower kspace) (zeros_like kspace) of
           Inl e \<Rightarrow> Inl e
         | Inr c1 \<Rightarrow>
        (case assign_rows odd_idx (take_rows upper kspace) c1 of
           Inl e \<Rightarrow> Inl e
         | Inr c2 \<Rightarrow>
        (let c3 = zero_flat_from
                    (slice_bound (size_of c2) (py_int (real (size_of kspace) * v / 100))) c2
         in case assign_rows upper (take_rows odd_idx c3) kspace of
              Inl e \<Rightarrow> Inl e
            | Inr k1 \<Rightarrow> assign_rows lower (take_rows even_idx c3) k1)))"

text \<open>\<^verbatim>\<open>ImageManipulators.filling_ss_epi_blipped\<close>.\<close>

definition filling_ss_epi_blipped :: "complex ndarray \<Rightarrow> real \<Rightarrow> py_error + complex ndarray" where
  "filling_ss_epi_blipped kspace v =
     (let n = shape0 kspace;
          even_idx = slice_from n 0 2;
          odd_idx = slice_from n 1 2
      in case assign_rows even_idx (take_rows even_idx kspace) (zeros_like kspace) of
           Inl e \<Rightarrow> Inl e
         | Inr e1 \<Rightarrow>
        (case assign_rows odd_idx (map rev (take_rows odd_idx kspace)) e1 of
           Inl e \<Rightarrow> Inl e
         | Inr e2 \<Rightarrow>
        (let e3 = zero_flat_from
                    (slice_bound (size_of e2) (py_int (real (size_of kspace) * v / 100))) e2
         in case assign_rows even_idx (take_rows even_idx e3) kspace of
              Inl e \<Rightarrow> Inl e
            | Inr k1 \<Rightarrow> assign_rows odd_idx (map rev (take_rows odd_idx e3)) k1)))"

text \<open>\<^verbatim>\<open>ImageManipulators.filling\<close>: mode 3 (spiral) and any other mode change nothing.\<close>

definition filling :: "complex ndarray \<Rightarrow> real \<Rightarrow> int \<Rightarrow> py_error + complex ndarray" where
  "filling kspace v mode =
     (if mode = 0 then Inr (filling_linear kspace v)
      else if mode = 1 then filling_centric kspace v
      else if mode = 2 then filling_ss_epi_blipped kspace v
      else Inr kspace)"

section \<open>The slice engine\<close>

text \<open>The buffers and lists of one \<^verbatim>\<open>ImageManipulators\<close> instance.\<close>

record manipulator =
  img :: "real ndarray"
  kspacedata :: "complex ndarray"
  image_display_data :: "8 word ndarray"
  kspace_display_data :: "8 word ndarray"
  orig_kspacedata :: "complex ndarray"
  kspace_abs :: "real ndarray"
  noise_map :: "real ndarray"
  signal_to_noise :: real
  spikes :: "(int \<times> int) list"
  patches :: "(int \<times> int \<times> int) list"

text \<open>Sequencing of calls that may raise: the first exception ends the sequence.\<close>

definition then_do :: "py_error + 'a \<Rightarrow> ('a \<Rightarrow> py_error + 'b) \<Rightarrow> py_error + 'b" where
  "then_do r f = (case r of Inl e \<Rightarrow> Inl e | Inr x \<Rightarrow> f x)"

text \<open>\<^verbatim>\<open>ImageManipulators.prepare_displays\<close>: the window is applied to the image in place,
  the magnitude of the k-space goes through \<^verbatim>\<open>log1p\<close> and \<^verbatim>\<open>normalise\<close> unless it is all
  zero, and both are cast into the display buffers.\<close>

definition prepare_displays :: "manipulator \<Rightarrow> int \<Rightarrow> window option \<Rightarrow> py_error + manipulator" where
  "prepare_displays im kscale lut =
     then_do (apply_window (img im) lut) (\<lambda>img'.
     then_do (np_assign (kspace_abs im) (map (map cmod) (kspacedata im))) (\<lambda>abs1.
     then_do (np_max abs1) (\<lambda>m.
     then_do (if m > 0 then
                (let scaling_c = 10 powr real_of_int kscale
                 in normalise (map (map (\<lambda>x. ln (1 + x * scaling_c))) abs1))
              else Inr abs1) (\<lambda>abs2.
     then_do (np_assign (image_display_data im) (map (map to_uint8) img')) (\<lambda>idd.
     then_do (np_assign (kspace_display_data im) (map (map to_uint8) abs2)) (\<lambda>kdd.
       Inr (im\<lparr>img := img', kspace_abs := abs2,
                image_display_data := idd, kspace_display_data := kdd\<rparr>)))))))"

text \<open>\<^verbatim>\<open>ImageManipulators.resize_arrays\<close>.\<close>

definition resize_arrays :: "manipulator \<Rightarrow> nat \<times> nat \<Rightarrow> manipulator" where
  "resize_arrays im sz =
     im\<lparr>img := np_resize sz (img im),
        image_display_data := np_resize sz (image_display_data im),
        kspace_display_data := np_resize sz (kspace_display_data im),
        kspace_abs := np_resize sz (kspace_abs im),
        kspacedata := np_resize sz (kspacedata im)\<rparr>"

text \<open>The rows \<^verbatim>\<open>undersample\<close> keeps: \<^verbatim>\<open>mask[midline::factor] = 0\<close> and
  \<^verbatim>\<open>mask[midline::-factor] = 0\<close> clear the mask on every \<open>factor\<close>-th row from the midline
  in both directions.\<close>

definition kept_row :: "nat \<Rightarrow> nat \<Rightarrow> nat \<Rightarrow> bool" where
  "kept_row midline factor i =
     ((midline \<le> i \<and> (i - midline) mod factor = 0) \<or> (i \<le> midline \<and> (midline - i) mod factor = 0))"

text \<open>\<^verbatim>\<open>ImageManipulators.undersample\<close>. The method resizes the arrays of the current
  instance \<^verbatim>\<open>im\<close> and is called on \<^verbatim>\<open>im.kspacedata\<close>, so the k-space it works on is the
  working k-space of the instance. With \<open>compress\<close> the kept cells \<^verbatim>\<open>kspace[~mask]\<close> are
  reshaped to rows, the arrays are resized to that shape and the rows are written back.\<close>

definition undersample :: "manipulator \<Rightarrow> int \<Rightarrow> bool \<Rightarrow> py_error + manipulator" where
  "undersample im factor compress =
     (let kspace = kspacedata im
      in if factor > 1 then
           (let midline = shape0 kspace div 2;
                keep = kept_row midline (nat factor)
            in if compress then
                 (let q = concat (map snd (filter (\<lambda>(i, row). keep i) (enumerate 0 kspace)))
                  in if shape1 kspace = 0 then Inl ZeroDivisionError
                     else if (length q div shape1 kspace) * shape1 kspace \<noteq> length q
                       then Inl ValueError
                     else
                       (let q' = unflatten (length q div shape1 kspace) (shape1 kspace) q;
                            im' = resize_arrays im (shape q')
                        in then_do (np_assign (kspacedata im') q')
                             (\<lambda>k. Inr (im'\<lparr>kspacedata := k\<rparr>))))
               else Inr (im\<lparr>kspacedata := mask_zero (\<lambda>i j. \<not> keep i) kspace\<rparr>))
         else Inr im)"

text \<open>The constructor \<^verbatim>\<open>ImageManipulators.__init__\<close>: the pixel data is an image
  (\<^verbatim>\<open>is_image=True\<close>) or raw k-space data.\<close>

datatype pixel_data = Image_data "real ndarray" | Raw_data "complex ndarray"

definition init :: "pixel_data \<Rightarrow> py_error + manipulator" where
  "init pixel_data =
     (let img0 = (case pixel_data of Image_data a \<Rightarrow> a | Raw_data k \<Rightarrow> zeros_like k);
          ksp0 = (case pixel_data of Image_data a \<Rightarrow> zeros_like a | Raw_data k \<Rightarrow> k);
          im0 = \<lparr>img = img0, kspacedata = ksp0,
                 image_display_data = map (map to_uint8) img0,
                 kspace_display_data = zeros_like img0,
                 orig_kspacedata = zeros_like ksp0,
                 kspace_abs = zeros_like ksp0,
                 noise_map = zeros_like ksp0,
                 signal_to_noise = 30, spikes = [], patches = []\<rparr>
      in then_do (case pixel_data of
                    Image_data _ \<Rightarrow> then_do (np_fft img0 ksp0) (\<lambda>k. Inr (im0\<lparr>kspacedata := k\<rparr>))
                  | Raw_data _ \<Rightarrow> then_do (np_ifft ksp0 img0) (\<lambda>i. Inr (im0\<lparr>img := i\<rparr>))) (\<lambda>im1.
         then_do (np_assign (orig_kspacedata im1) (kspacedata im1)) (\<lambda>orig.
           prepare_displays (im1\<lparr>orig_kspacedata := orig\<rparr>) (- 3) None)))"

text \<open>The operations of the engine on its own buffers, as \<^verbatim>\<open>MainApp.image_change\<close> calls
  them: every filter works on \<^verbatim>\<open>im.kspacedata\<close>, the noise filter also on
  \<^verbatim>\<open>im.noise_map\<close>, the inverse transform writes \<^verbatim>\<open>im.img\<close>. The last three are the
  caller's writes to the fields \<^verbatim>\<open>signal_to_noise\<close>, \<^verbatim>\<open>spikes\<close> and \<^verbatim>\<open>patches\<close>.\<close>

datatype operation =
    Resize_arrays "nat \<times> nat"
  | Reset_kspace
  | Add_noise real bool "nat \<Rightarrow> nat \<Rightarrow> real"
  | Apply_spikes
  | Apply_patches
  | Reduced_scan_percentage real
  | Partial_fourier real bool
  | High_pass_filter real
  | Low_pass_filter real
  | Undersample int bool
  | Decrease_dc int
  | Hamming
  | Filling real int
  | Np_ifft
  | Prepare_displays int "window option"
  | Set_signal_to_noise real
  | Set_spikes "(int \<times> int) list"
  | Set_patches "(int \<times> int \<times> int) list"

fun run_op :: "operation \<Rightarrow> manipulator \<Rightarrow> py_error + manipulator" where
  "run_op (Resize_arrays sz) im = Inr (resize_arrays im sz)"
| "run_op Reset_kspace im =
     then_do (np_assign (kspacedata im) (orig_kspacedata im)) (\<lambda>k. Inr (im\<lparr>kspacedata := k\<rparr>))"
| "run_op (Add_noise snr generate_new randn) im =
     then_do (add_noise (kspacedata im) snr (noise_map im) generate_new randn)
       (\<lambda>(k, noise). Inr (im\<lparr>kspacedata := k, noise_map := noise\<rparr>))"
| "run_op Apply_spikes im =
     then_do (apply_spikes (kspacedata im) (spikes im)) (\<lambda>k. Inr (im\<lparr>kspacedata := k\<rparr>))"
| "run_op Apply_patches im = Inr (im\<lparr>kspacedata := apply_patches (kspacedata im) (patches im)\<rparr>)"
| "run_op (Reduced_scan_percentage p) im =
     Inr (im\<lparr>kspacedata := reduced_scan_percentage (kspacedata im) p\<rparr>)"
| "run_op (Partial_fourier p zf) im =
     Inr (im\<lparr>kspacedata := partial_fourier (kspacedata im) p zf\<rparr>)"
| "run_op (High_pass_filter r) im = Inr (im\<lparr>kspacedata := high_pass_filter (kspacedata im) r\<rparr>)"
| "run_op (Low_pass_filter r) im = Inr (im\<lparr>kspacedata := low_pass_filter (kspacedata im) r\<rparr>)"
| "run_op (Undersample factor compress) im = undersample im factor compress"
| "run_op (Decrease_dc p) im =
     then_do (decrease_dc (kspacedata im) p) (\<lambda>k. Inr (im\<lparr>kspacedata := k\<rparr>))"
| "run_op Hamming im = Inr (im\<lparr>kspacedata := hamming (kspacedata im)\<rparr>)"
| "run_op (Filling v mode) im =
     then_do (filling (kspacedata im) v mode) (\<lambda>k. Inr (im\<lparr>kspacedata := k\<rparr>))"
| "run_op Np_ifft im =
     then_do (np_ifft (kspacedata im) (img im)) (\<lambda>i. Inr (im\<lparr>img := i\<rparr>))"
| "run_op (Prepare_displays kscale lut) im = prepare_displays im kscale lut"
| "run_op (Set_signal_to_noise snr) im = Inr (im\<lparr>signal_to_noise := snr\<rparr>)"
| "run_op (Set_spikes sps) im = Inr (im\<lparr>spikes := sps\<rparr>)"
| "run_op (Set_patches ps) im = Inr (im\<lparr>patches := ps\<rparr>)"

text \<open>The controls \<^verbatim>\<open>MainApp.image_change\<close> reads from the user interface.\<close>

record controls =
  noise_slider :: real
  rdc_slider_enabled :: bool
  rdc_slider :: real
  partial_fourier_slider_enabled :: bool
  partial_fourier_slider :: real
  zero_fill :: bool
  high_pass_slider :: real
  low_pass_slider :: real
  undersample_kspace :: real
  compress_checked :: bool
  decrease_dc_slider :: real
  hamming_checked :: bool
  filling_slider :: real
  filling_mode :: int
  ksp_const :: real
  display_ww :: real
  display_wc :: real

text \<open>An operation that runs only when its control enables it.\<close>

definition run_if :: "bool \<Rightarrow> operation \<Rightarrow> manipulator \<Rightarrow> py_error + manipulator" where
  "run_if b op im = (if b then run_op op im else Inr im)"

text \<open>\<^verbatim>\<open>MainApp.image_change\<close>: one recompute. The arrays are resized to the shape of the
  original k-space, the working k-space is reset, the filters run in their fixed order,
  then the inverse transform and the display preparation.\<close>

definition image_change ::
  "controls \<Rightarrow> (nat \<Rightarrow> nat \<Rightarrow> real) \<Rightarrow> manipulator \<Rightarrow> py_error + manipulator" where
  "image_change ui randn im =
     then_do (run_op (Resize_arrays (shape (orig_kspacedata im))) im) (\<lambda>im.
     then_do (run_op Reset_kspace im) (\<lambda>im.
     (let new_snr = noise_slider ui;
          generate_new = (new_snr \<noteq> signal_to_noise im)
      in
     then_do (run_if generate_new (Set_signal_to_noise new_snr) im) (\<lambda>im.
     then_do (run_op (Add_noise new_snr generate_new randn) im) (\<lambda>im.
     then_do (run_op Apply_spikes im) (\<lambda>im.
     then_do (run_op Apply_patches im) (\<lambda>im.
     then_do (run_if (rdc_slider_enabled ui) (Reduced_scan_percentage (rdc_slider ui)) im) (\<lambda>im.
     then_do (run_if (partial_fourier_slider_enabled ui)
                (Partial_fourier (partial_fourier_slider ui) (zero_fill ui)) im) (\<lambda>im.
     then_do (run_op (High_pass_filter (high_pass_slider ui)) im) (\<lambda>im.
     then_do (run_op (Low_pass_filter (low_pass_slider ui)) im) (\<lambda>im.
     then_do (run_if (py_int (undersample_kspace ui) \<noteq> 0)
                (Undersample (py_int (undersample_kspace ui)) (compress_checked ui)) im) (\<lambda>im.
     then_do (run_if (py_int (decrease_dc_slider ui) > 1)
                (Decrease_dc (py_int (decrease_dc_slider ui))) im) (\<lambda>im.
     then_do (run_if (hamming_checked ui) Hamming im) (\<lambda>im.
     then_do (run_if (filling_slider ui < 100)
                (Filling (filling_slider ui) (filling_mode ui)) im) (\<lambda>im.
     then_do (run_op Np_ifft im) (\<lambda>im.
       run_op (Prepare_displays (py_int (ksp_const ui))
                 (Some \<lparr>ww = display_ww ui, wc = display_wc ui\<rparr>)) im))))))))))))))))"

text \<open>The shape invariant of the data model: the image, the two display buffers and the
  working k-space are two-dimensional arrays of one shape.\<close>

definition shapes_agree :: "manipulator \<Rightarrow> bool" where
  "shapes_agree im =
     (rect (img im) \<and> rect (image_display_data im) \<and> rect (kspace_display_data im) \<and>
      rect (kspacedata im) \<and>
      shape (img im) = shape (kspacedata im) \<and>
      shape (image_display_data im) = shape (kspacedata im) \<and>
      shape (kspace_display_data im) = shape (kspacedata im))"

text \<open>The operations that call \<^verbatim>\<open>resize_arrays\<close>: the resize itself, and \<^verbatim>\<open>undersample\<close>
  when it compresses.\<close>

fun calls_resize_arrays :: "operation \<Rightarrow> bool" where
  "calls_resize_arrays (Resize_arrays sz) = True"
| "calls_resize_arrays (Undersample factor compress) = (factor > 1 \<and> compress)"
| "calls_resize_arrays _ = False"

text \<open>The states of the engine: the result of the constructor, and the result of any
  operation on a state.\<close>

inductive reachable :: "manipulator \<Rightarrow> bool" where
  reachable_init: "rect a \<Longrightarrow> init (Image_data a) = Inr im \<Longrightarrow> reachable im"
| reachable_init_raw: "rect k \<Longrightarrow> init (Raw_data k) = Inr im \<Longrightarrow> reachable im"
| reachable_op: "reachable im \<Longrightarrow> run_op op im = Inr im' \<Longrightarrow> reachable im'"

section \<open>Properties\<close>

subsection \<open>Python numerics\<close>

lemma py_round_nonneg: "0 \<le> x \<Longrightarrow> 0 \<le> py_round x"
  by (auto simp: py_round_def Let_def)




subsection \<open>Array assignments\<close>

lemma length_zero_rows: "length (zero_rows lo hi a) = length a"
  by (simp add: zero_rows_def)

lemma nth_zero_rows:
  "i < length a \<Longrightarrow>
   zero_rows lo hi a ! i = (if lo \<le> i \<and> i < hi then map (\<lambda>_. 0) (a ! i) else a ! i)"
  by (simp add: zero_rows_def nth_enumerate_eq)

lemma length_mask_zero: "length (mask_zero m a) = length a"
  by (simp add: mask_zero_def)

lemma length_nth_mask_zero: "i < length a \<Longrightarrow> length (mask_zero m a ! i) = length (a ! i)"
  by (simp add: mask_zero_def nth_enumerate_eq)


lemma map_length_reshape_like:
  "length xs = length (concat a) \<Longrightarrow> map length (reshape_like a xs) = map length a"
  by (induction a arbitrary: xs) auto



subsection \<open>Reduced scan percentage\<close>





lemma reduced_scan_percentage_example:
  "reduced_scan_percentage [[1, 2], [3, 4], [5, 6], [7, 8]] 50 = [[0, 0], [3, 4], [5, 6], [0, 0]]"
  by (simp add: reduced_scan_percentage_def py_int_def py_round_def shape0_def slice_bound_def
      zero_rows_def Let_def)

subsection \<open>Linear filling\<close>





lemma filling_linear_example:
  "filling_linear [[1, 2, 3, 4], [5, 6, 7, 8]] 50 = [[1, 2, 3, 4], [0, 0, 0, 0]]"
  by (simp add: filling_linear_def zero_flat_from_def size_of_def slice_bound_def py_int_def)

subsection \<open>High-pass and low-pass filter\<close>




subsection \<open>Boundary parameters\<close>

text \<open>
  Claim C8. \<^verbatim>\<open>undersample\<close> with a factor of at most 1 returns the engine state unchanged
  (the k-space, its shape and every other buffer) and raises nothing; \<^verbatim>\<open>high_pass_filter\<close>
  with a radius of at most 0 returns the k-space unchanged.
\<close>

theorem boundary_parameters_disable:
  "(factor \<le> 1 \<longrightarrow> undersample im factor compress = Inr im) \<and>
   (radius \<le> 0 \<longrightarrow> high_pass_filter kspace radius = kspace)"
  by (simp add: undersample_def high_pass_filter_def)

theorem boundary_parameters_disable_witness:
  "(1::int) \<le> 1 \<and> (0::real) \<le> 0 \<and>
   undersample \<lparr>img = [[1, 2]], kspacedata = [[3, 4]], image_display_data = [[1, 2]],
                 kspace_display_data = [[0, 0]], orig_kspacedata = [[3, 4]], kspace_abs = [[3, 4]],
                 noise_map = [[0, 0]], signal_to_noise = 30, spikes = [], patches = []\<rparr> 1 True
     = Inr \<lparr>img = [[1, 2]], kspacedata = [[3, 4]], image_display_data = [[1, 2]],
             kspace_display_data = [[0, 0]], orig_kspacedata = [[3, 4]], kspace_abs = [[3, 4]],
             noise_map = [[0, 0]], signal_to_noise = 30, spikes = [], patches = []\<rparr> \<and>
   high_pass_filter [[1, 2], [3, 4]] 0 = [[1, 2], [3, 4]]"
  using boundary_parameters_disable[of 1 _ True 0 "[[1, 2], [3, 4]]"] by simp

subsection \<open>Noise\<close>

text \<open>Rectangular arrays of the same shape have the same row lengths, and an assignment
  between them needs no broadcasting.\<close>

lemma rect_row_length: "rect a \<Longrightarrow> r \<in> set a \<Longrightarrow> length r = shape1 a"
  by (simp add: rect_def list_all_iff)

lemma map_length_rect: "rect a \<Longrightarrow> map length a = replicate (shape0 a) (shape1 a)"
  by (auto simp: shape0_def list_eq_iff_nth_eq rect_row_length)

lemma rect_same_shape:
  "rect a \<Longrightarrow> rect b \<Longrightarrow> shape a = shape b \<Longrightarrow> map length a = map length b"
  by (simp add: map_length_rect shape_def)

lemma broadcast_to_exact:
  assumes "map length src = replicate r c"
  shows "broadcast_to r c src = Inr src"
proof -
  from assms have len: "length src = r"
    by (metis length_map length_replicate)
  have rows: "length row = c" if "row \<in> set src" for row
  proof -
    from that have "length row \<in> set (map length src)" by simp
    then show ?thesis unfolding assms by simp
  qed
  have "map (\<lambda>row. the (broadcast_list c row)) src = map (\<lambda>row. row) src"
    by (rule map_cong) (simp_all add: broadcast_list_def rows)
  then show ?thesis
    using len rows by (simp add: broadcast_to_def broadcast_list_def list_all_iff)
qed

lemma np_assign_same_shape:
  "rect dst \<Longrightarrow> map length src = map length dst \<Longrightarrow> np_assign dst src = Inr src"
  unfolding np_assign_def by (rule broadcast_to_exact) (simp add: map_length_rect)

lemma add_noise_cached_aux:
  assumes "snr < 30" "rect kspace" "rect noise" "shape noise = shape kspace"
  shows "add_noise kspace snr noise False randn
           = Inr (map2 (map2 (\<lambda>z x. z + complex_of_real x)) kspace noise, noise)"
proof -
  have "map length noise = map length kspace"
    using assms by (intro rect_same_shape)
  then have "np_assign kspace noise = Inr noise"
    using assms(2) by (rule np_assign_same_shape[rotated])
  then show ?thesis using assms(1) by (simp add: add_noise_def np_iadd_def)
qed

text \<open>
  Claim C7. With a requested SNR of at least 30 the k-space and the noise map are returned
  unchanged. With an SNR below 30 and \<open>generate_new_noise = False\<close>, for a noise map of
  the shape of the k-space, the map is added cell by cell and returned as it was; two
  successive calls, on any two k-spaces of that shape, add the same map and leave it
  unchanged.
\<close>

theorem add_noise_cached:
  "(30 \<le> snr \<longrightarrow> add_noise kspace snr noise gen randn = Inr (kspace, noise)) \<and>
   (snr < 30 \<and> rect kspace \<and> rect noise \<and> shape noise = shape kspace \<longrightarrow>
      add_noise kspace snr noise False randn
        = Inr (map2 (map2 (\<lambda>z x. z + complex_of_real x)) kspace noise, noise)) \<and>
   (snr < 30 \<and> rect kspace \<and> rect kspace' \<and> rect noise \<and>
    shape noise = shape kspace \<and> shape noise = shape kspace' \<longrightarrow>
      then_do (add_noise kspace snr noise False randn) (\<lambda>(k1, n1).
        then_do (add_noise kspace' snr n1 False randn') (\<lambda>(k2, n2). Inr (k1, n1, k2, n2)))
        = Inr (map2 (map2 (\<lambda>z x. z + complex_of_real x)) kspace noise, noise,
               map2 (map2 (\<lambda>z x. z + complex_of_real x)) kspace' noise, noise))"
proof -
  have "add_noise kspace snr noise gen randn = Inr (kspace, noise)" if "30 \<le> snr"
    using that by (simp add: add_noise_def)
  then show ?thesis
    by (auto simp: add_noise_cached_aux then_do_def)
qed

theorem add_noise_cached_witness:
  "(30::real) \<le> 30 \<and> (10::real) < 30 \<and> rect [[1, 2], [3, 4::complex]] \<and> rect [[5, 6], [7, 8::complex]] \<and>
   rect [[1, 0], [0, - 1::real]] \<and> shape [[1, 0], [0, - 1::real]] = shape [[1, 2], [3, 4::complex]] \<and>
   shape [[1, 0], [0, - 1::real]] = shape [[5, 6], [7, 8::complex]] \<and>
   add_noise [[1, 2], [3, 4]] 30 [[1, 0], [0, - 1]] True (\<lambda>i j. 1) = Inr ([[1, 2], [3, 4]], [[1, 0], [0, - 1]]) \<and>
   add_noise [[1, 2], [3, 4]] 10 [[1, 0], [0, - 1]] False (\<lambda>i j. 1) = Inr ([[2, 2], [3, 3]], [[1, 0], [0, - 1]]) \<and>
   then_do (add_noise [[1, 2], [3, 4]] 10 [[1, 0], [0, - 1]] False (\<lambda>i j. 1)) (\<lambda>(k1, n1).
     then_do (add_noise [[5, 6], [7, 8]] 10 n1 False (\<lambda>i j. 2)) (\<lambda>(k2, n2). Inr (k1, n1, k2, n2)))
     = Inr ([[2, 2], [3, 3]], [[1, 0], [0, - 1]], [[6, 6], [7, 7]], [[1, 0], [0, - 1]])"
proof -
  let ?k = "[[1, 2], [3, 4::complex]]" and ?k' = "[[5, 6], [7, 8::complex]]"
  let ?n = "[[1, 0], [0, - 1::real]]"
  have h: "(30::real) \<le> 30" "(10::real) < 30" by simp_all
  have r: "rect ?k" "rect ?k'" "rect ?n"
    by (simp_all add: rect_def shape1_def)
  have s: "shape ?n = shape ?k" "shape ?n = shape ?k'"
    by (simp_all add: shape_def shape0_def shape1_def)
  note t = add_noise_cached[of 30 ?k ?n True "\<lambda>i j. 1"]
    add_noise_cached[of 10 ?k ?n True "\<lambda>i j. 1" ?k' "\<lambda>i j. 2"]
  from t(1) h have e1: "add_noise ?k 30 ?n True (\<lambda>i j. 1) = Inr (?k, ?n)" by blast
  from t(2) h r s have "add_noise ?k 10 ?n False (\<lambda>i j. 1)
        = Inr (map2 (map2 (\<lambda>z x. z + complex_of_real x)) ?k ?n, ?n)" by blast
  then have e2: "add_noise ?k 10 ?n False (\<lambda>i j. 1) = Inr ([[2, 2], [3, 3]], ?n)" by simp
  from t(2) h r s have "then_do (add_noise ?k 10 ?n False (\<lambda>i j. 1)) (\<lambda>(k1, n1).
        then_do (add_noise ?k' 10 n1 False (\<lambda>i j. 2)) (\<lambda>(k2, n2). Inr (k1, n1, k2, n2)))
        = Inr (map2 (map2 (\<lambda>z x. z + complex_of_real x)) ?k ?n, ?n,
               map2 (map2 (\<lambda>z x. z + complex_of_real x)) ?k' ?n, ?n)" by blast
  then have e3: "then_do (add_noise ?k 10 ?n False (\<lambda>i j. 1)) (\<lambda>(k1, n1).
        then_do (add_noise ?k' 10 n1 False (\<lambda>i j. 2)) (\<lambda>(k2, n2). Inr (k1, n1, k2, n2)))
        = Inr ([[2, 2], [3, 3]], ?n, [[6, 6], [7, 7]], ?n)" by simp
  show ?thesis by (intro conjI) (fact h r s e1 e2 e3)+
qed

subsection \<open>Partial Fourier\<close>





lemma py_round_ge_neg_half:
  assumes "- (1 / 2) \<le> x"
  shows "0 \<le> py_round x"
proof (cases "0 \<le> x")
  case True
  then show ?thesis by (rule py_round_nonneg)
next
  case False
  with assms have "\<lfloor>x\<rfloor> = - 1" by linarith
  with assms show ?thesis by (simp add: py_round_def Let_def)
qed

text \<open>For a percentage in \<open>[0, 100]\<close> and a k-space with at least one row the count
  \<open>skip\<close> is not negative, so the theorem covers every percentage of the slider.\<close>

lemma partial_fourier_skip_nonneg:
  assumes "0 \<le> p" "p \<le> 100" "kspace \<noteq> []"
  shows "0 \<le> py_round ((1 - p / 100) * (real (shape0 kspace) / 2 - 1))"
proof (rule py_round_ge_neg_half)
  let ?x = "(1 - p / 100) * (real (shape0 kspace) / 2 - 1)"
  from assms(3) have n: "1 \<le> shape0 kspace" by (cases kspace) (simp_all add: shape0_def)
  have q: "0 \<le> 1 - p / 100" "1 - p / 100 \<le> 1" using assms by simp_all
  have low: "- (1 / 2) \<le> real (shape0 kspace) / 2 - 1" using n by simp
  show "- (1 / 2) \<le> ?x"
  proof (cases "0 \<le> real (shape0 kspace) / 2 - 1")
    case True
    with q have "0 \<le> ?x" by simp
    then show ?thesis by simp
  next
    case False
    then have neg: "real (shape0 kspace) / 2 - 1 \<le> 0" by simp
    have "1 * (real (shape0 kspace) / 2 - 1) \<le> ?x"
      using q neg by (intro mult_right_mono_neg) simp_all
    with low show ?thesis by simp
  qed
qed



subsection \<open>Spikes\<close>

text \<open>\<^verbatim>\<open>kspace.max()\<close> is a cell of the k-space that no cell exceeds in NumPy's order of
  complex numbers.\<close>

lemma complex_less_fold_max:
  "fold (\<lambda>x m. if complex_less m x then x else m) zs z = m' \<Longrightarrow>
   m' \<in> set (z # zs) \<and> (\<forall>x \<in> set (z # zs). \<not> complex_less m' x)"
proof (induction zs arbitrary: z)
  case Nil
  then show ?case by (auto simp: complex_less_def)
next
  case (Cons y zs)
  let ?m1 = "if complex_less z y then y else z"
  from Cons.prems have "fold (\<lambda>x m. if complex_less m x then x else m) zs ?m1 = m'" by simp
  from Cons.IH[OF this] have in_set: "m' \<in> set (?m1 # zs)"
    and mx: "\<forall>x \<in> set (?m1 # zs). \<not> complex_less m' x" by blast+
  from mx have m1: "\<not> complex_less m' ?m1" by simp
  have "\<not> complex_less m' z" "\<not> complex_less m' y"
    using m1 by (auto simp: complex_less_def split: if_splits)
  with in_set mx show ?case by (auto split: if_splits)
qed

lemma np_max_complex_greatest:
  assumes "concat a \<noteq> []"
  shows "\<exists>m. np_max_complex a = Inr m \<and> m \<in> set (concat a)
             \<and> (\<forall>z \<in> set (concat a). \<not> complex_less m z)"
proof -
  from assms obtain z zs where c: "concat a = z # zs" by (cases "concat a") auto
  let ?m = "fold (\<lambda>x m. if complex_less m x then x else m) zs z"
  have "np_max_complex a = Inr ?m" by (simp add: np_max_complex_def c)
  moreover have "?m \<in> set (z # zs) \<and> (\<forall>x \<in> set (z # zs). \<not> complex_less ?m x)"
    by (rule complex_less_fold_max) simp
  ultimately show ?thesis unfolding c by blast
qed

lemma py_index_valid:
  assumes "- int n \<le> i" "i < int n"
  shows "py_index n i = Inr (nat (i mod int n))"
proof (cases "0 \<le> i")
  case True
  with assms show ?thesis by (simp add: py_index_def)
next
  case False
  then have neg: "i < 0" by simp
  have "(i + int n) mod int n = i + int n"
    using assms neg by (intro mod_pos_pos_trivial) simp_all
  then have "i mod int n = int n + i" by (simp add: add.commute)
  with assms neg show ?thesis by (simp add: py_index_def)
qed

text \<open>The shape and rectangularity of an array depend on its row lengths only.\<close>

lemma shape0_cong: "map length a = map length b \<Longrightarrow> shape0 a = shape0 b"
  unfolding shape0_def by (rule map_eq_imp_length_eq)

lemma shape1_cong: "map length a = map length b \<Longrightarrow> shape1 a = shape1 b"
  by (cases a; cases b) (simp_all add: shape1_def)

lemma rect_cong: "map length a = map length b \<Longrightarrow> rect a = rect b"
proof -
  assume eq: "map length a = map length b"
  have "rect x = (\<forall>n \<in> set (map length x). n = shape1 x)" for x :: "'c ndarray"
    by (auto simp: rect_def list_all_iff)
  then show ?thesis using eq shape1_cong[OF eq] by (metis (no_types))
qed

lemma rect_nth_length: "rect a \<Longrightarrow> i < shape0 a \<Longrightarrow> length (a ! i) = shape1 a"
  by (simp add: rect_row_length shape0_def)

lemma nat_mod_less: "0 < n \<Longrightarrow> nat (r mod int n) < n"
  by (simp add: nat_less_iff)

lemma int_eq_mod_iff: "0 < n \<Longrightarrow> (int a = r mod int n) = (a = nat (r mod int n))"
  by (auto simp: nat_eq_iff)

lemma map_length_update_cell: "map length (a[i := (a ! i)[j := v]]) = map length a"
  by (cases "i < length a") (auto simp: list_eq_iff_nth_eq nth_list_update)

lemma nth_update_cell:
  "i' < length a \<Longrightarrow> j' < length (a ! i') \<Longrightarrow>
   a[i := (a ! i)[j := v]] ! i' ! j' = (if i' = i \<and> j' = j then v else a ! i' ! j')"
  by (cases "i < length a"; cases "j < length (a ! i)") (auto simp: nth_list_update)

text \<open>Writing the spikes: with every coordinate inside the array (negative coordinates
  count from the end) no write raises, the shape is kept, and a cell holds the spike value
  exactly when it is listed.\<close>

lemma set_cell_valid:
  assumes "rect a" "- int (shape0 a) \<le> r" "r < int (shape0 a)"
    "- int (shape1 a) \<le> c" "c < int (shape1 a)"
  shows "set_cell a (r, c) v
           = Inr (a[nat (r mod int (shape0 a)) := (a ! nat (r mod int (shape0 a)))
                                                  [nat (c mod int (shape1 a)) := v]])"
  using assms by (simp add: set_cell_def py_index_valid)

lemma write_spikes_cells:
  assumes "rect k"
    and "\<forall>(r, c) \<in> set sps. - int (shape0 k) \<le> r \<and> r < int (shape0 k)
                                \<and> - int (shape1 k) \<le> c \<and> c < int (shape1 k)"
  shows "\<exists>k'. write_spikes k sps v = Inr k' \<and> map length k' = map length k \<and>
           (\<forall>i < shape0 k. \<forall>j < shape1 k. k' ! i ! j =
              (if (int i, int j) \<in> (\<lambda>(r, c). (r mod int (shape0 k), c mod int (shape1 k))) ` set sps
               then v else k ! i ! j))"
  using assms
proof (induction sps arbitrary: k)
  case Nil
  then show ?case by simp
next
  case (Cons s sps)
  obtain r c where s: "s = (r, c)" by (cases s)
  let ?i = "nat (r mod int (shape0 k))" and ?j = "nat (c mod int (shape1 k))"
  let ?k1 = "k[?i := (k ! ?i)[?j := v]]"
  from Cons.prems s have valid: "- int (shape0 k) \<le> r" "r < int (shape0 k)"
    "- int (shape1 k) \<le> c" "c < int (shape1 k)" by auto
  then have pos: "0 < shape0 k" "0 < shape1 k" by linarith+
  have i: "?i < shape0 k" and j: "?j < shape1 k" using pos by (simp_all add: nat_mod_less)
  have sc: "set_cell k s v = Inr ?k1"
    unfolding s using Cons.prems(1) valid by (rule set_cell_valid)
  have ml: "map length ?k1 = map length k"
    by (rule map_length_update_cell)
  note sh = shape0_cong[OF ml] shape1_cong[OF ml]
  have r1: "rect ?k1" using rect_cong[OF ml] Cons.prems(1) by simp
  have "\<forall>(r, c) \<in> set sps. - int (shape0 ?k1) \<le> r \<and> r < int (shape0 ?k1)
                                \<and> - int (shape1 ?k1) \<le> c \<and> c < int (shape1 ?k1)"
    unfolding sh using Cons.prems(2) by simp
  from Cons.IH[OF r1 this] obtain k' where
    w: "write_spikes ?k1 sps v = Inr k'" and l: "map length k' = map length ?k1"
    and cells: "\<forall>i < shape0 k. \<forall>j < shape1 k. k' ! i ! j =
              (if (int i, int j) \<in> (\<lambda>(r, c). (r mod int (shape0 k), c mod int (shape1 k))) ` set sps
               then v else ?k1 ! i ! j)"
    unfolding sh by blast
  have k1: "?k1 ! a ! b = (if a = ?i \<and> b = ?j then v else k ! a ! b)"
    if "a < shape0 k" "b < shape1 k" for a b
    using that rect_nth_length[OF Cons.prems(1)]
    by (simp add: shape0_def nth_update_cell)
  have eqi: "(int a = r mod int (shape0 k)) = (a = ?i)" for a
    using pos by (simp add: int_eq_mod_iff)
  have eqj: "(int b = c mod int (shape1 k)) = (b = ?j)" for b
    using pos by (simp add: int_eq_mod_iff)
  have "k' ! a ! b =
              (if (int a, int b) \<in> (\<lambda>(r, c). (r mod int (shape0 k), c mod int (shape1 k))) ` set (s # sps)
               then v else k ! a ! b)" if "a < shape0 k" "b < shape1 k" for a b
    using cells that k1[OF that] by (auto simp: s eqi eqj)
  then show ?case using w l ml sc by simp
qed

text \<open>
  Claim C2, as stated, fails: on the k-space \<open>[[-3, 1]]\<close> the greatest magnitude is 3,
  but \<^verbatim>\<open>kspace.max()\<close> is the cell 1, the greatest in NumPy's order of complex numbers,
  so the spike at (0, 0) is written as 2 and not as 6.
\<close>

theorem apply_spikes_magnitude_counterexample:
  "apply_spikes [[- 3, 1]] [(0, 0)] = Inr [[2, 1]] \<and>
   Max (cmod ` set (concat [[- 3, 1]])) = 3 \<and>
   (2::complex) \<noteq> complex_of_real (2 * 3)"
  by (simp add: apply_spikes_def np_max_complex_def complex_less_def set_cell_def py_index_def
      shape0_def shape1_def)

text \<open>
  Claim C2, amended. On a non-empty rectangular k-space with every spike coordinate inside
  the array, \<^verbatim>\<open>apply_spikes\<close> raises nothing and keeps the shape; the spike value is twice
  \<open>m\<close>, the greatest cell of the k-space as it was before any spike was written, in
  NumPy's order of complex numbers (by real part, then by imaginary part); every listed
  cell holds \<open>2 * m\<close> and every other cell is unchanged.
\<close>

theorem apply_spikes_complex_max:
  "rect kspace \<and> concat kspace \<noteq> [] \<and>
   (\<forall>(r, c) \<in> set sps. - int (shape0 kspace) \<le> r \<and> r < int (shape0 kspace)
                          \<and> - int (shape1 kspace) \<le> c \<and> c < int (shape1 kspace)) \<longrightarrow>
   (\<exists>m k'. np_max_complex kspace = Inr m \<and> m \<in> set (concat kspace) \<and>
       (\<forall>z \<in> set (concat kspace). \<not> complex_less m z) \<and>
       apply_spikes kspace sps = Inr k' \<and> map length k' = map length kspace \<and>
       (\<forall>i < shape0 kspace. \<forall>j < shape1 kspace. k' ! i ! j =
          (if (int i, int j) \<in> (\<lambda>(r, c). (r mod int (shape0 kspace), c mod int (shape1 kspace))) ` set sps
           then 2 * m else kspace ! i ! j)))"
proof (intro impI, elim conjE)
  assume r: "rect kspace" and ne: "concat kspace \<noteq> []"
    and v: "\<forall>(r, c) \<in> set sps. - int (shape0 kspace) \<le> r \<and> r < int (shape0 kspace)
                          \<and> - int (shape1 kspace) \<le> c \<and> c < int (shape1 kspace)"
  from np_max_complex_greatest[OF ne] obtain m where
    m: "np_max_complex kspace = Inr m" "m \<in> set (concat kspace)"
       "\<forall>z \<in> set (concat kspace). \<not> complex_less m z" by blast
  from write_spikes_cells[OF r v, of "m * 2"] obtain k' where
    k': "write_spikes kspace sps (m * 2) = Inr k'" "map length k' = map length kspace"
       "\<forall>i < shape0 kspace. \<forall>j < shape1 kspace. k' ! i ! j =
          (if (int i, int j) \<in> (\<lambda>(r, c). (r mod int (shape0 kspace), c mod int (shape1 kspace))) ` set sps
           then m * 2 else kspace ! i ! j)" by blast
  have "apply_spikes kspace sps = Inr k'"
    by (simp add: apply_spikes_def m(1) k'(1))
  with m k'(2,3) show "\<exists>m k'. np_max_complex kspace = Inr m \<and> m \<in> set (concat kspace) \<and>
       (\<forall>z \<in> set (concat kspace). \<not> complex_less m z) \<and>
       apply_spikes kspace sps = Inr k' \<and> map length k' = map length kspace \<and>
       (\<forall>i < shape0 kspace. \<forall>j < shape1 kspace. k' ! i ! j =
          (if (int i, int j) \<in> (\<lambda>(r, c). (r mod int (shape0 kspace), c mod int (shape1 kspace))) ` set sps
           then 2 * m else kspace ! i ! j))"
    by (simp add: mult.commute)
qed

theorem apply_spikes_complex_max_witness:
  "rect [[1, \<i>], [- 3, 2::complex]] \<and> concat [[1, \<i>], [- 3, 2::complex]] \<noteq> [] \<and>
   - int (shape0 [[1, \<i>], [- 3, 2::complex]]) \<le> - 1 \<and> - 1 < int (shape0 [[1, \<i>], [- 3, 2::complex]]) \<and>
   - int (shape1 [[1, \<i>], [- 3, 2::complex]]) \<le> 0 \<and> 0 < int (shape1 [[1, \<i>], [- 3, 2::complex]]) \<and>
   np_max_complex [[1, \<i>], [- 3, 2]] = Inr 2 \<and>
   apply_spikes [[1, \<i>], [- 3, 2]] [(- 1, 0)] = Inr [[1, \<i>], [4, 2]]"
proof -
  let ?k = "[[1, \<i>], [- 3, 2::complex]]"
  have r: "rect ?k" "concat ?k \<noteq> []" by (simp_all add: rect_def shape1_def)
  have v: "- int (shape0 ?k) \<le> - 1" "- 1 < int (shape0 ?k)"
    "- int (shape1 ?k) \<le> 0" "0 < int (shape1 ?k)"
    by (simp_all add: shape0_def shape1_def)
  have mx: "np_max_complex ?k = Inr 2"
    by (simp add: np_max_complex_def complex_less_def)
  from apply_spikes_complex_max[of ?k "[(- 1, 0)]"] r v obtain m k' where
    m: "np_max_complex ?k = Inr m" and a: "apply_spikes ?k [(- 1, 0)] = Inr k'"
    and l: "map length k' = map length ?k"
    and c: "\<forall>i < shape0 ?k. \<forall>j < shape1 ?k. k' ! i ! j =
          (if (int i, int j) \<in> (\<lambda>(r, c). (r mod int (shape0 ?k), c mod int (shape1 ?k))) ` set [(- 1, 0)]
           then 2 * m else ?k ! i ! j)"
    by auto
  from m mx have m2: "m = 2" by simp
  have "apply_spikes ?k [(- 1, 0)] = Inr [[1, \<i>], [4, 2]]"
    by (simp add: apply_spikes_def np_max_complex_def complex_less_def set_cell_def py_index_def
      shape0_def shape1_def)
  with a have "k' = [[1, \<i>], [4, 2]]" by simp
  with a have "apply_spikes ?k [(- 1, 0)] = Inr [[1, \<i>], [4, 2]]" by simp
  with r v mx show ?thesis by simp
qed

subsection \<open>Windowing\<close>

text \<open>
  Claim C10, as stated, fails: on the array \<open>[[-2, -1]]\<close> with the window
  \<open>ww = 1, wc = 1\<close> the maximum is -1, the low bound is -1/2 and the high bound -3/2.
  The cell -1 is at most the low bound, and it is mapped to 255, not to 0: it also exceeds
  the high bound, and \<^verbatim>\<open>np.piecewise\<close> lets the later condition win.
\<close>

theorem apply_window_overlap_counterexample:
  "np_max [[- 2, - 1]] = Inr (- 1) \<and> np_min [[- 2, - 1]] = Inr (- 2) \<and>
   [[- 2, - 1::real]] ! 0 ! 1 \<le> 1 * (- 1) - (1 * (- 1)) / 2 \<and>
   apply_window [[- 2, - 1]] (Some \<lparr>ww = 1, wc = 1\<rparr>) = Inr [[0, 255]]"
  by (simp add: apply_window_def np_max_def np_min_def window_cell_def Let_def)

lemma window_cell_cases:
  "(w_high < x \<longrightarrow> window_cell w_low w_high c w x = 255) \<and>
   (x \<le> w_low \<and> \<not> w_high < x \<longrightarrow> window_cell w_low w_high c w x = 0)"
  by (simp add: window_cell_def Let_def)

text \<open>
  Claim C10, amended. For an array whose maximum exceeds its minimum and a window
  \<open>{ww, wc}\<close>, with \<open>low = wc * max - (ww * max) / 2\<close> and
  \<open>high = wc * max + (ww * max) / 2\<close>: the shape is kept, every cell above \<open>high\<close> is
  mapped to 255, and every cell at most \<open>low\<close> and not above \<open>high\<close> is mapped to 0, the
  value \<open>low\<close> included. When the scaled width \<open>ww * max\<close> is not negative, that is every
  cell at most \<open>low\<close>.
\<close>

theorem apply_window_clipping:
  "np_max f = Inr fmax \<and> np_min f = Inr fmin \<and> fmin < fmax \<longrightarrow>
     (let ww_abs = ww w * fmax; wc_abs = wc w * fmax;
          low = wc_abs - ww_abs / 2; high = wc_abs + ww_abs / 2
      in \<exists>g. apply_window f (Some w) = Inr g \<and> map length g = map length f \<and>
           (\<forall>i < length f. \<forall>j < length (f ! i).
              (high < f ! i ! j \<longrightarrow> g ! i ! j = 255) \<and>
              (f ! i ! j \<le> low \<and> \<not> high < f ! i ! j \<longrightarrow> g ! i ! j = 0) \<and>
              (0 \<le> ww_abs \<and> f ! i ! j \<le> low \<longrightarrow> g ! i ! j = 0)))"
proof (intro impI, elim conjE)
  assume mx: "np_max f = Inr fmax" and mn: "np_min f = Inr fmin" and lt: "fmin < fmax"
  let ?ww = "ww w * fmax" and ?wc = "wc w * fmax"
  let ?low = "?wc - ?ww / 2" and ?high = "?wc + ?ww / 2"
  let ?g = "map (map (window_cell ?low ?high ?wc ?ww)) f"
  have a: "apply_window f (Some w) = Inr ?g"
    using lt by (simp add: apply_window_def mx mn Let_def)
  have l: "map length ?g = map length f" by (simp add: comp_def)
  have c: "(?high < f ! i ! j \<longrightarrow> ?g ! i ! j = 255) \<and>
           (f ! i ! j \<le> ?low \<and> \<not> ?high < f ! i ! j \<longrightarrow> ?g ! i ! j = 0) \<and>
           (0 \<le> ?ww \<and> f ! i ! j \<le> ?low \<longrightarrow> ?g ! i ! j = 0)"
    if "i < length f" "j < length (f ! i)" for i j
  proof -
    have "0 \<le> ?ww \<and> f ! i ! j \<le> ?low \<longrightarrow> \<not> ?high < f ! i ! j" by auto
    then show ?thesis using that window_cell_cases[of ?high "f ! i ! j" ?low ?wc ?ww] by auto
  qed
  show "let ww_abs = ww w * fmax; wc_abs = wc w * fmax;
          low = wc_abs - ww_abs / 2; high = wc_abs + ww_abs / 2
      in \<exists>g. apply_window f (Some w) = Inr g \<and> map length g = map length f \<and>
           (\<forall>i < length f. \<forall>j < length (f ! i).
              (high < f ! i ! j \<longrightarrow> g ! i ! j = 255) \<and>
              (f ! i ! j \<le> low \<and> \<not> high < f ! i ! j \<longrightarrow> g ! i ! j = 0) \<and>
              (0 \<le> ww_abs \<and> f ! i ! j \<le> low \<longrightarrow> g ! i ! j = 0))"
    unfolding Let_def using a l c by blast
qed

theorem apply_window_clipping_witness:
  "np_max [[0, 50, 100, 200]] = Inr 200 \<and> np_min [[0, 50, 100, 200]] = Inr 0 \<and> (0::real) < 200 \<and>
   (50::real) = 1 / 2 * 200 - (1 / 2 * 200) / 2 \<and> (150::real) = 1 / 2 * 200 + (1 / 2 * 200) / 2 \<and>
   apply_window [[0, 50, 100, 200]] (Some \<lparr>ww = 1 / 2, wc = 1 / 2\<rparr>) = Inr [[0, 0, 255 / 2, 255]]"
proof -
  let ?f = "[[0, 50, 100, 200::real]]"
  have h: "np_max ?f = Inr 200" "np_min ?f = Inr 0" "(0::real) < 200"
    by (simp_all add: np_max_def np_min_def)
  have b: "(50::real) = 1 / 2 * 200 - (1 / 2 * 200) / 2" "(150::real) = 1 / 2 * 200 + (1 / 2 * 200) / 2"
    by simp_all
  note t = apply_window_clipping[of ?f 200 0 "\<lparr>ww = 1 / 2, wc = 1 / 2\<rparr>", unfolded Let_def]
  have "\<exists>g. apply_window ?f (Some \<lparr>ww = 1 / 2, wc = 1 / 2\<rparr>) = Inr g \<and> map length g = map length ?f"
    using t[THEN mp, OF conjI[OF h(1) conjI[OF h(2) h(3)]]] by (elim exE conjE) (intro exI conjI)
  then obtain g where g: "apply_window ?f (Some \<lparr>ww = 1 / 2, wc = 1 / 2\<rparr>) = Inr g" by (elim exE conjE)
  have "apply_window ?f (Some \<lparr>ww = 1 / 2, wc = 1 / 2\<rparr>) = Inr [[0, 0, 255 / 2, 255]]"
    by (simp add: apply_window_def h window_cell_def Let_def)
  with g have "g = [[0, 0, 255 / 2, 255]]" by simp
  with g have e: "apply_window ?f (Some \<lparr>ww = 1 / 2, wc = 1 / 2\<rparr>) = Inr [[0, 0, 255 / 2, 255]]"
    by simp
  show ?thesis by (intro conjI) (fact h b e)+
qed

subsection \<open>Shapes under the filters\<close>

text \<open>Every filter writes into the k-space in place; in the model that is the fact that
  the result has the row lengths of the input.\<close>

lemma map_length_zero_rows: "map length (zero_rows lo hi a) = map length a"
  by (auto simp: list_eq_iff_nth_eq length_zero_rows nth_zero_rows)

lemma map_length_mask_zero: "map length (mask_zero m a) = map length a"
  by (simp add: list_eq_iff_nth_eq length_mask_zero length_nth_mask_zero)

lemma map_length_zero_flat_from: "map length (zero_flat_from lo a) = map length a"
  unfolding zero_flat_from_def by (rule map_length_reshape_like) (simp add: size_of_def)

lemma map_length_unflatten:
  "r * c \<le> length xs \<Longrightarrow> map length (unflatten r c xs) = replicate r c"
proof -
  assume len: "r * c \<le> length xs"
  have "length (take c (drop (i * c) xs)) = c" if "i < r" for i
  proof -
    from that have "i * c + c \<le> r * c"
      by (metis Suc_leI mult_Suc mult_le_mono1 add.commute)
    with len show ?thesis by simp
  qed
  then show ?thesis by (simp add: unflatten_def list_eq_iff_nth_eq)
qed

lemma map_length_np_resize: "map length (np_resize (r, c) a) = replicate r c"
  unfolding np_resize_def by (simp add: size_of_def map_length_unflatten)

lemma rect_replicate: "map length a = replicate r c \<Longrightarrow> rect a"
proof -
  assume eq: "map length a = replicate r c"
  have "length row = c" if "row \<in> set a" for row
  proof -
    from that have "length row \<in> set (map length a)" by simp
    then show ?thesis unfolding eq by simp
  qed
  moreover have "shape1 a = c" if "a \<noteq> []"
    using that eq by (cases a; cases r) (simp_all add: shape1_def)
  ultimately show ?thesis by (cases "a = []") (auto simp: rect_def list_all_iff)
qed

lemma broadcast_list_length: "broadcast_list n xs = Some ys \<Longrightarrow> length ys = n"
  by (auto simp: broadcast_list_def split: if_splits)

lemma map_length_broadcast_to:
  assumes "broadcast_to r c src = Inr x"
  shows "map length x = replicate r c"
proof -
  from assms obtain rows where rows: "broadcast_list r src = Some rows"
    and all: "list_all (\<lambda>row. broadcast_list c row \<noteq> None) rows"
    and x: "x = map (\<lambda>row. the (broadcast_list c row)) rows"
    by (auto simp: broadcast_to_def split: option.splits if_splits)
  have "length (the (broadcast_list c row)) = c" if "row \<in> set rows" for row
    using that all broadcast_list_length[of c row] by (auto simp: list_all_iff)
  then show ?thesis
    unfolding x using broadcast_list_length[OF rows] by (simp add: list_eq_iff_nth_eq)
qed

lemma map_length_np_assign:
  "np_assign dst src = Inr x \<Longrightarrow> rect dst \<Longrightarrow> map length x = map length dst"
  unfolding np_assign_def by (simp add: map_length_broadcast_to map_length_rect)

lemma map_length_map2:
  "map length a = map length b \<Longrightarrow> map length (map2 (map2 f) a b) = map length a"
proof -
  assume eq: "map length a = map length b"
  then have len: "length a = length b" by (rule map_eq_imp_length_eq)
  have "length (a ! i) = length (b ! i)" if "i < length a" for i
    using that eq len by (metis nth_map)
  then show ?thesis using len by (simp add: list_eq_iff_nth_eq)
qed

lemma map_length_np_iadd:
  assumes "np_iadd k noise = Inr k'" "rect k"
  shows "map length k' = map length k"
proof -
  from assms(1) obtain n' where n: "np_assign k noise = Inr n'"
    and k': "k' = map2 (map2 (\<lambda>z x. z + complex_of_real x)) k n'"
    by (auto simp: np_iadd_def split: sum.splits)
  from map_length_np_assign[OF n assms(2)] show ?thesis
    unfolding k' by (intro map_length_map2) simp
qed

lemma map_length_add_noise:
  assumes "add_noise k snr noise g randn = Inr (k', noise')" "rect k"
  shows "map length k' = map length k"
  using assms by (auto simp: add_noise_def map_length_np_iadd split: if_splits sum.splits)

lemma map_length_set_cell: "set_cell a rc v = Inr a' \<Longrightarrow> map length a' = map length a"
  by (auto simp: set_cell_def map_length_update_cell split: sum.splits)

lemma map_length_write_spikes:
  "write_spikes k sps v = Inr k' \<Longrightarrow> map length k' = map length k"
proof (induction sps arbitrary: k)
  case Nil
  then show ?case by simp
next
  case (Cons s sps)
  then show ?case
    by (auto split: sum.splits dest!: map_length_set_cell)
qed

lemma map_length_apply_spikes:
  "apply_spikes k sps = Inr k' \<Longrightarrow> map length k' = map length k"
  by (auto simp: apply_spikes_def Let_def map_length_write_spikes split: sum.splits)

lemma map_length_apply_patches: "map length (apply_patches k ps) = map length k"
  by (induction k ps rule: apply_patches.induct) (simp_all add: zero_block_def map_length_mask_zero)

lemma map_length_reduced_scan_percentage:
  "map length (reduced_scan_percentage k p) = map length k"
  by (simp add: reduced_scan_percentage_def Let_def map_length_zero_rows)

lemma map_length_high_pass_filter: "map length (high_pass_filter k r) = map length k"
  by (simp add: high_pass_filter_def map_length_mask_zero)

lemma map_length_low_pass_filter: "map length (low_pass_filter k r) = map length k"
  by (simp add: low_pass_filter_def map_length_mask_zero)

lemma map_length_hamming: "map length (hamming k) = map length k"
  by (simp add: hamming_def list_eq_iff_nth_eq nth_enumerate_eq)

lemma map_length_decrease_dc: "decrease_dc k p = Inr k' \<Longrightarrow> map length k' = map length k"
  by (auto simp: decrease_dc_def Let_def map_length_update_cell split: if_splits)

lemma map_length_filling_linear: "map length (filling_linear k v) = map length k"
  by (simp add: filling_linear_def map_length_zero_flat_from)

lemma length_np_roll: "length (np_roll s xs) = length xs"
  by (simp add: np_roll_def)

lemma set_np_roll: "set (np_roll s xs) = set xs"
  by (simp add: np_roll_def)

lemma rect_all_lengths: "rect a \<Longrightarrow> \<forall>r \<in> set a. length r = shape1 a"
  by (simp add: rect_def list_all_iff)

lemma map_length_const:
  "\<forall>r \<in> set a. length r = c \<Longrightarrow> map length a = replicate (length a) c"
  by (simp add: list_eq_iff_nth_eq)

lemma map_length_partial_fourier:
  assumes "rect k"
  shows "map length (partial_fourier k p zf) = map length k"
proof -
  let ?c = "shape1 k"
  have all: "\<forall>r \<in> set k. length r = ?c" using assms by (rule rect_all_lengths)
  have mk: "map length k = replicate (length k) ?c" using all by (rule map_length_const)
  have mirrored: "map length (take lo (take lo k @ drop lo (map (np_roll sh) (np_roll sv (map rev (rev k)))))
          @ map (map cnj)
              (drop lo (take lo k @ drop lo (map (np_roll sh) (np_roll sv (map rev (rev k)))))))
        = map length k" for lo sh sv
  proof -
    let ?m = "map (np_roll sh) (np_roll sv (map rev (rev k)))"
    let ?k1 = "take lo k @ drop lo ?m"
    let ?res = "take lo ?k1 @ map (map cnj) (drop lo ?k1)"
    have "\<forall>r \<in> set ?m. length r = ?c"
      using all by (auto simp: set_np_roll length_np_roll)
    moreover have "set ?k1 \<subseteq> set k \<union> set ?m"
      by (auto dest!: in_set_takeD in_set_dropD)
    ultimately have k1: "\<forall>r \<in> set ?k1. length r = ?c" using all by blast
    have "set ?res \<subseteq> set ?k1 \<union> map cnj ` set ?k1"
      using set_take_subset[of lo ?k1] set_drop_subset[of lo ?k1] by auto
    with k1 have "\<forall>r \<in> set ?res. length r = ?c" by auto
    then have "map length ?res = replicate (length ?res) ?c" by (rule map_length_const)
    moreover have "length ?res = length k" by (simp add: length_np_roll)
    ultimately show ?thesis using mk by simp
  qed
  show ?thesis
    unfolding partial_fourier_def Let_def
    by (simp only: if_distrib[of "map length"] mirrored map_length_zero_rows if_cancel)
qed

lemma fold_update_rows:
  assumes "\<forall>p \<in> set ps. length (snd p) = c" "\<forall>r \<in> set d. length r = c"
  shows "(\<forall>r \<in> set (fold (\<lambda>(i, row) d. d[i := row]) ps d). length r = c) \<and>
         length (fold (\<lambda>(i, row) d. d[i := row]) ps d) = length d"
  using assms
proof (induction ps arbitrary: d)
  case Nil
  then show ?case by simp
next
  case (Cons p ps)
  obtain i row where p: "p = (i, row)" by (cases p)
  from Cons.prems p have row: "length row = c" by simp
  have "\<forall>r \<in> set (d[i := row]). length r = c"
    using Cons.prems(2) row set_update_subset_insert[of d i row] by auto
  with Cons.IH[of "d[i := row]"] Cons.prems(1) show ?case by (simp add: p)
qed

lemma map_length_assign_rows:
  assumes "assign_rows idx src dst = Inr d'" "rect dst"
  shows "map length d' = map length dst"
proof -
  let ?c = "shape1 dst"
  from assms(1) obtain rows where b: "broadcast_to (length idx) ?c src = Inr rows"
    and d': "d' = fold (\<lambda>(i, row) d. d[i := row]) (zip idx rows) dst"
    by (auto simp: assign_rows_def split: sum.splits)
  from map_length_broadcast_to[OF b] have "\<forall>r \<in> set rows. length r = ?c"
    by (metis in_set_replicate length_map nth_map in_set_conv_nth)
  then have ps: "\<forall>p \<in> set (zip idx rows). length (snd p) = ?c"
    by (auto dest: set_zip_rightD)
  have dst: "\<forall>r \<in> set dst. length r = ?c" using assms(2) by (rule rect_all_lengths)
  from fold_update_rows[OF ps dst]
  have "\<forall>r \<in> set d'. length r = ?c" and len: "length d' = length dst"
    unfolding d' by blast+
  then have "map length d' = replicate (length d') ?c" by (intro map_length_const)
  also have "\<dots> = map length dst" using len map_length_const[OF dst] by simp
  finally show ?thesis .
qed

lemma map_length_filling_centric:
  assumes "filling_centric k v = Inr k'" "rect k"
  shows "map length k' = map length k"
proof -
  from assms(1) obtain idx1 src1 idx2 src2 k1 where
    k1: "assign_rows idx1 src1 k = Inr k1" and k': "assign_rows idx2 src2 k1 = Inr k'"
    by (auto simp: filling_centric_def Let_def split: sum.splits)
  from map_length_assign_rows[OF k1 assms(2)] have m1: "map length k1 = map length k" .
  with assms(2) have "rect k1" using rect_cong by blast
  from map_length_assign_rows[OF k' this] m1 show ?thesis by simp
qed

lemma map_length_filling_ss_epi_blipped:
  assumes "filling_ss_epi_blipped k v = Inr k'" "rect k"
  shows "map length k' = map length k"
proof -
  from assms(1) obtain idx1 src1 idx2 src2 k1 where
    k1: "assign_rows idx1 src1 k = Inr k1" and k': "assign_rows idx2 src2 k1 = Inr k'"
    by (auto simp: filling_ss_epi_blipped_def Let_def split: sum.splits)
  from map_length_assign_rows[OF k1 assms(2)] have m1: "map length k1 = map length k" .
  with assms(2) have "rect k1" using rect_cong by blast
  from map_length_assign_rows[OF k' this] m1 show ?thesis by simp
qed

lemma map_length_filling:
  "filling k v mode = Inr k' \<Longrightarrow> rect k \<Longrightarrow> map length k' = map length k"
  by (auto simp: filling_def map_length_filling_linear map_length_filling_centric
      map_length_filling_ss_epi_blipped split: if_splits)

lemma map_length_apply_window: "apply_window f w = Inr g \<Longrightarrow> map length g = map length f"
  by (auto simp: apply_window_def Let_def comp_def split: sum.splits if_splits)

lemma map_length_normalise: "normalise f = Inr g \<Longrightarrow> map length g = map length f"
  by (auto simp: normalise_def Let_def comp_def split: sum.splits if_splits)

subsection \<open>The shape invariant\<close>

lemma then_do_Inr: "then_do r f = Inr y \<longleftrightarrow> (\<exists>x. r = Inr x \<and> f x = Inr y)"
  by (cases r) (simp_all add: then_do_def)

lemma shape_cong: "map length a = map length b \<Longrightarrow> shape a = shape b"
  using shape0_cong[of a b] shape1_cong[of a b] by (simp add: shape_def)

lemma shapes_agree_iff:
  "shapes_agree im \<longleftrightarrow>
     rect (kspacedata im) \<and>
     map length (img im) = map length (kspacedata im) \<and>
     map length (image_display_data im) = map length (kspacedata im) \<and>
     map length (kspace_display_data im) = map length (kspacedata im)"
proof
  assume a: "shapes_agree im"
  then have r: "rect (img im)" "rect (image_display_data im)" "rect (kspace_display_data im)"
    "rect (kspacedata im)" by (simp_all add: shapes_agree_def)
  from a have s: "shape (img im) = shape (kspacedata im)"
    "shape (image_display_data im) = shape (kspacedata im)"
    "shape (kspace_display_data im) = shape (kspacedata im)" by (simp_all add: shapes_agree_def)
  show "rect (kspacedata im) \<and>
     map length (img im) = map length (kspacedata im) \<and>
     map length (image_display_data im) = map length (kspacedata im) \<and>
     map length (kspace_display_data im) = map length (kspacedata im)"
    using r(4) rect_same_shape[OF r(1) r(4) s(1)] rect_same_shape[OF r(2) r(4) s(2)]
      rect_same_shape[OF r(3) r(4) s(3)] by simp
next
  assume a: "rect (kspacedata im) \<and>
     map length (img im) = map length (kspacedata im) \<and>
     map length (image_display_data im) = map length (kspacedata im) \<and>
     map length (kspace_display_data im) = map length (kspacedata im)"
  then have m: "map length (img im) = map length (kspacedata im)"
    "map length (image_display_data im) = map length (kspacedata im)"
    "map length (kspace_display_data im) = map length (kspacedata im)"
    and r: "rect (kspacedata im)" by simp_all
  show "shapes_agree im"
    unfolding shapes_agree_def
    using r shape_cong[OF m(1)] shape_cong[OF m(2)] shape_cong[OF m(3)]
      rect_cong[OF m(1)] rect_cong[OF m(2)] rect_cong[OF m(3)] by simp
qed

lemma rect_np_resize: "rect (np_resize sz a)"
  by (cases sz) (simp add: rect_replicate[OF map_length_np_resize])

lemma shapes_agree_resize_arrays: "shapes_agree (resize_arrays im sz)"
  by (cases sz) (simp add: shapes_agree_iff resize_arrays_def rect_np_resize map_length_np_resize)

lemma shapes_agree_kspacedata:
  assumes "shapes_agree im" "map length k = map length (kspacedata im)"
  shows "shapes_agree (im\<lparr>kspacedata := k\<rparr>)"
proof -
  from assms(1) have "rect (kspacedata im)"
     "map length (img im) = map length (kspacedata im)"
     "map length (image_display_data im) = map length (kspacedata im)"
     "map length (kspace_display_data im) = map length (kspacedata im)"
    by (simp_all only: shapes_agree_iff)
  with assms(2) rect_cong[OF assms(2)] show ?thesis
    unfolding shapes_agree_iff[of "im\<lparr>kspacedata := k\<rparr>"] by simp
qed

lemma shapes_agree_rect: "shapes_agree im \<Longrightarrow> rect (kspacedata im)"
  by (simp add: shapes_agree_def)

lemma undersample_cases:
  assumes "undersample im factor compress = Inr im'"
  shows "(\<not> (factor > 1 \<and> compress) \<and>
          (im' = im \<or> (\<exists>m. im' = im\<lparr>kspacedata := mask_zero m (kspacedata im)\<rparr>))) \<or>
         (factor > 1 \<and> compress \<and>
          (\<exists>sz q' k. np_assign (kspacedata (resize_arrays im sz)) q' = Inr k \<and>
                      im' = (resize_arrays im sz)\<lparr>kspacedata := k\<rparr>))"
proof (cases "factor > 1")
  case False
  with assms show ?thesis by (simp add: undersample_def)
next
  case True
  note f = this
  show ?thesis
  proof (cases compress)
    case False
    with assms f show ?thesis by (auto simp: undersample_def Let_def)
  next
    case True
    define q where "q = concat (map snd (filter (\<lambda>(i, row).
         kept_row (shape0 (kspacedata im) div 2) (nat factor) i) (enumerate 0 (kspacedata im))))"
    define q' where "q' = unflatten (length q div shape1 (kspacedata im)) (shape1 (kspacedata im)) q"
    from assms f True have "then_do (np_assign (kspacedata (resize_arrays im (shape q'))) q')
            (\<lambda>k. Inr ((resize_arrays im (shape q'))\<lparr>kspacedata := k\<rparr>)) = Inr im'"
      unfolding undersample_def Let_def q_def[symmetric] q'_def[symmetric]
      by (simp split: if_splits)
    then obtain k where "np_assign (kspacedata (resize_arrays im (shape q'))) q' = Inr k"
      "im' = (resize_arrays im (shape q'))\<lparr>kspacedata := k\<rparr>"
      unfolding then_do_Inr by auto
    with f True show ?thesis by blast
  qed
qed

lemma undersample_shapes_agree:
  assumes "shapes_agree im" "undersample im factor compress = Inr im'"
  shows "shapes_agree im'"
  using undersample_cases[OF assms(2)]
proof (elim disjE conjE exE)
  assume "im' = im"
  with assms(1) show ?thesis by simp
next
  fix m assume "im' = im\<lparr>kspacedata := mask_zero m (kspacedata im)\<rparr>"
  with assms(1) show ?thesis
    by (simp add: shapes_agree_kspacedata map_length_mask_zero)
next
  fix sz q' k
  assume k: "np_assign (kspacedata (resize_arrays im sz)) q' = Inr k"
    and im': "im' = (resize_arrays im sz)\<lparr>kspacedata := k\<rparr>"
  have "map length k = map length (kspacedata (resize_arrays im sz))"
    using k shapes_agree_rect[OF shapes_agree_resize_arrays] by (rule map_length_np_assign)
  with shapes_agree_resize_arrays show ?thesis unfolding im' by (rule shapes_agree_kspacedata)
qed

lemma undersample_same_shape:
  assumes "\<not> (factor > 1 \<and> compress)" "undersample im factor compress = Inr im'"
  shows "map length (kspacedata im') = map length (kspacedata im)"
  using undersample_cases[OF assms(2)] assms(1)
  by (auto simp: map_length_mask_zero)

lemma then_doE:
  assumes "then_do r f = Inr y"
  obtains x where "r = Inr x" "f x = Inr y"
  using assms unfolding then_do_Inr by blast

lemma prepare_displays_cases:
  assumes "prepare_displays im kscale lut = Inr im'"
  shows "\<exists>img' abs2 idd kdd.
      apply_window (img im) lut = Inr img' \<and>
      np_assign (image_display_data im) (map (map to_uint8) img') = Inr idd \<and>
      np_assign (kspace_display_data im) (map (map to_uint8) abs2) = Inr kdd \<and>
      im' = im\<lparr>img := img', kspace_abs := abs2,
                image_display_data := idd, kspace_display_data := kdd\<rparr>"
  using assms unfolding prepare_displays_def
  by (elim then_doE) (simp, blast)

lemma prepare_displays_shapes_agree:
  assumes "shapes_agree im" "prepare_displays im kscale lut = Inr im'"
  shows "shapes_agree im' \<and> kspacedata im' = kspacedata im"
proof -
  from prepare_displays_cases[OF assms(2)] obtain img' abs2 idd kdd where
    w: "apply_window (img im) lut = Inr img'"
    and i: "np_assign (image_display_data im) (map (map to_uint8) img') = Inr idd"
    and k: "np_assign (kspace_display_data im) (map (map to_uint8) abs2) = Inr kdd"
    and im': "im' = im\<lparr>img := img', kspace_abs := abs2,
                image_display_data := idd, kspace_display_data := kdd\<rparr>"
    by blast
  from assms(1) have r: "rect (image_display_data im)" "rect (kspace_display_data im)"
    by (simp_all add: shapes_agree_def)
  have sel: "kspacedata im' = kspacedata im" "img im' = img'" "image_display_data im' = idd"
    "kspace_display_data im' = kdd" unfolding im' by simp_all
  note m = map_length_apply_window[OF w] map_length_np_assign[OF i r(1)] map_length_np_assign[OF k r(2)]
  from assms(1) have "rect (kspacedata im) \<and>
     map length (img im) = map length (kspacedata im) \<and>
     map length (image_display_data im) = map length (kspacedata im) \<and>
     map length (kspace_display_data im) = map length (kspacedata im)"
    by (simp only: shapes_agree_iff)
  with m have "shapes_agree im'"
    unfolding shapes_agree_iff[of im'] sel by simp
  with sel show ?thesis by simp
qed

subsection \<open>Operations and the invariant\<close>

lemma shapes_agree_other_fields:
  "shapes_agree (im\<lparr>signal_to_noise := snr\<rparr>) = shapes_agree im"
  "shapes_agree (im\<lparr>spikes := sps\<rparr>) = shapes_agree im"
  "shapes_agree (im\<lparr>patches := ps\<rparr>) = shapes_agree im"
  "shapes_agree (im\<lparr>noise_map := n\<rparr>) = shapes_agree im"
  "shapes_agree (im\<lparr>orig_kspacedata := k\<rparr>) = shapes_agree im"
  by (simp_all add: shapes_agree_def)

lemma shapes_agree_img:
  assumes "shapes_agree im" "map length i = map length (img im)"
  shows "shapes_agree (im\<lparr>img := i\<rparr>)"
proof -
  from assms(1) have "rect (kspacedata im)"
     "map length (img im) = map length (kspacedata im)"
     "map length (image_display_data im) = map length (kspacedata im)"
     "map length (kspace_display_data im) = map length (kspacedata im)"
    by (simp_all only: shapes_agree_iff)
  with assms(2) show ?thesis
    unfolding shapes_agree_iff[of "im\<lparr>img := i\<rparr>"] by simp
qed

text \<open>Every operation other than a resize keeps the row lengths of the working k-space.\<close>

lemma run_op_same_shape:
  assumes "shapes_agree im" "\<not> calls_resize_arrays op" "run_op op im = Inr im'"
  shows "map length (kspacedata im') = map length (kspacedata im)"
proof -
  note r = shapes_agree_rect[OF assms(1)]
  show ?thesis
  proof (cases op)
    case (Resize_arrays sz)
    with assms(2) show ?thesis by simp
  next
    case Reset_kspace
    with assms(3) r show ?thesis by (auto elim!: then_doE simp: map_length_np_assign)
  next
    case (Add_noise snr g randn)
    with assms(3) r show ?thesis by (auto elim!: then_doE simp: map_length_add_noise)
  next
    case Apply_spikes
    with assms(3) show ?thesis by (auto elim!: then_doE simp: map_length_apply_spikes)
  next
    case Apply_patches
    with assms(3) show ?thesis by (auto simp: map_length_apply_patches)
  next
    case (Reduced_scan_percentage p)
    with assms(3) show ?thesis by (auto simp: map_length_reduced_scan_percentage)
  next
    case (Partial_fourier p zf)
    with assms(3) r show ?thesis by (auto simp: map_length_partial_fourier)
  next
    case (High_pass_filter x)
    with assms(3) show ?thesis by (auto simp: map_length_high_pass_filter)
  next
    case (Low_pass_filter x)
    with assms(3) show ?thesis by (auto simp: map_length_low_pass_filter)
  next
    case (Undersample factor compress)
    with assms(2,3) show ?thesis by (simp add: undersample_same_shape)
  next
    case (Decrease_dc p)
    with assms(3) show ?thesis by (auto elim!: then_doE simp: map_length_decrease_dc)
  next
    case Hamming
    with assms(3) show ?thesis by (auto simp: map_length_hamming)
  next
    case (Filling v mode)
    with assms(3) r show ?thesis by (auto elim!: then_doE simp: map_length_filling)
  next
    case Np_ifft
    with assms(3) show ?thesis by (auto elim!: then_doE)
  next
    case (Prepare_displays kscale lut)
    with assms(1,3) show ?thesis by (simp add: prepare_displays_shapes_agree)
  next
    case (Set_signal_to_noise x)
    with assms(3) show ?thesis by auto
  next
    case (Set_spikes x)
    with assms(3) show ?thesis by auto
  next
    case (Set_patches x)
    with assms(3) show ?thesis by auto
  qed
qed

text \<open>Every operation keeps the invariant.\<close>

lemma run_op_shapes_agree:
  assumes "shapes_agree im" "run_op op im = Inr im'"
  shows "shapes_agree im'"
proof (cases "calls_resize_arrays op")
  case True
  then show ?thesis
  proof (cases op)
    case (Resize_arrays sz)
    with assms(2) show ?thesis by (auto simp: shapes_agree_resize_arrays)
  next
    case (Undersample factor compress)
    with assms show ?thesis by (simp add: undersample_shapes_agree)
  qed simp_all
next
  case False
  note same = run_op_same_shape[OF assms(1) False assms(2)]
  show ?thesis
  proof (cases "\<exists>k. im' = im\<lparr>kspacedata := k\<rparr>")
    case True
    then obtain k where k: "im' = im\<lparr>kspacedata := k\<rparr>" by blast
    with same have "map length k = map length (kspacedata im)" by simp
    with assms(1) show ?thesis unfolding k by (rule shapes_agree_kspacedata)
  next
    case other: False
    show ?thesis
    proof (cases op)
      case (Add_noise snr g randn)
      with assms(2) obtain k n where k: "im' = im\<lparr>kspacedata := k, noise_map := n\<rparr>"
        by (auto elim!: then_doE)
      with same have "map length k = map length (kspacedata im)" by simp
      with assms(1) show ?thesis unfolding k
        by (simp add: shapes_agree_other_fields shapes_agree_kspacedata)
    next
      case (Undersample factor compress)
      with assms show ?thesis by (simp add: undersample_shapes_agree)
    next
      case Np_ifft
      with assms(2) obtain i where i: "np_assign (img im) i = Inr (img im')"
        and im': "im' = im\<lparr>img := img im'\<rparr>"
        by (auto elim!: then_doE simp: np_ifft_def)
      from assms(1) have "rect (img im)" by (simp add: shapes_agree_def)
      from map_length_np_assign[OF i this] assms(1) show ?thesis
        by (subst im') (rule shapes_agree_img)
    next
      case (Prepare_displays kscale lut)
      with assms show ?thesis by (simp add: prepare_displays_shapes_agree)
    next
      case (Set_signal_to_noise x)
      with assms show ?thesis by (auto simp: shapes_agree_other_fields)
    next
      case (Set_spikes x)
      with assms show ?thesis by (auto simp: shapes_agree_other_fields)
    next
      case (Set_patches x)
      with assms show ?thesis by (auto simp: shapes_agree_other_fields)
    qed (use assms(2) other False in \<open>auto elim!: then_doE\<close>)
  qed
qed

subsection \<open>The discrete Fourier transform\<close>




lemma twiddle_0: "twiddle n 0 = 1"
  by (simp add: twiddle_def)






lemma length_fft1: "length (fft1 xs) = length xs"
  by (simp add: fft1_def Let_def)





lemma shape0_fft_axis0: "shape0 (fft_axis0 a) = shape0 a"
  by (simp add: fft_axis0_def Let_def shape0_def)

lemma map_length_fft_axis0: "map length (fft_axis0 a) = replicate (shape0 a) (shape1 a)"
  by (simp add: fft_axis0_def Let_def list_eq_iff_nth_eq)






lemma shape1_map_fft1: "shape1 (map fft1 a) = shape1 a"
  by (cases a) (simp_all add: shape1_def length_fft1)

lemma shape0_map: "shape0 (map f a) = shape0 a"
  by (simp add: shape0_def)



lemma map_length_fft2: "map length (fft2 a) = replicate (shape0 a) (shape1 a)"
  by (simp add: fft2_def map_length_fft_axis0 shape0_map shape1_map_fft1)

subsection \<open>The centred transforms\<close>




lemma map_length_fftshift:
  assumes "rect a"
  shows "map length (fftshift a) = map length a" "map length (ifftshift a) = map length a"
proof -
  have all: "\<forall>r \<in> set a. length r = shape1 a" using assms by (rule rect_all_lengths)
  have "\<forall>r \<in> set (fftshift a). length r = shape1 a"
    using all by (auto simp: fftshift_def set_np_roll length_np_roll)
  from map_length_const[OF this] map_length_const[OF all]
  show "map length (fftshift a) = map length a"
    by (simp add: fftshift_def length_np_roll)
  have "\<forall>r \<in> set (ifftshift a). length r = shape1 a"
    using all by (auto simp: ifftshift_def set_np_roll length_np_roll)
  from map_length_const[OF this] map_length_const[OF all]
  show "map length (ifftshift a) = map length a"
    by (simp add: ifftshift_def length_np_roll)
qed



lemma rect_fft2: "rect (fft2 a)"
  by (rule rect_replicate[OF map_length_fft2])

text \<open>The forward transform of a rectangular image fits an output buffer of the shape of
  the pixels, and the inverse transform of the result is the magnitude of the image.\<close>

lemma np_fft_value:
  assumes "rect pixels" "map length out = map length pixels"
  shows "np_fft pixels out = Inr (fftshift (fft2 (ifftshift (map (map complex_of_real) pixels))))"
proof -
  let ?x = "map (map complex_of_real) pixels"
  have mx: "map length ?x = map length pixels" by (simp add: comp_def)
  then have rx: "rect ?x" using assms(1) rect_cong by blast
  have ri: "rect (ifftshift ?x)"
    using rect_cong[OF map_length_fftshift(2)[OF rx]] rx by simp
  have "map length (fft2 (ifftshift ?x)) = map length (ifftshift ?x)"
    by (simp add: map_length_fft2 map_length_rect[OF ri])
  then have "map length (fftshift (fft2 (ifftshift ?x))) = map length out"
    by (simp add: map_length_fftshift(1)[OF rect_fft2] map_length_fftshift(2)[OF rx] mx assms(2))
  moreover have "rect out" using assms rect_cong by blast
  ultimately show ?thesis unfolding np_fft_def by (intro np_assign_same_shape)
qed






subsection \<open>The states of the engine\<close>

lemma map_length_zeros_like: "map length (zeros_like a) = map length a"
  by (simp add: zeros_like_def comp_def)

text \<open>The constructor establishes the invariant, and every operation keeps it.\<close>

lemma init_cases:
  assumes "init pd = Inr im"
  shows "\<exists>im1 orig. prepare_displays (im1\<lparr>orig_kspacedata := orig\<rparr>) (- 3) None = Inr im \<and>
     ((\<exists>a k. pd = Image_data a \<and> np_fft a (zeros_like a) = Inr k \<and>
             img im1 = a \<and> kspacedata im1 = k \<and>
             image_display_data im1 = map (map to_uint8) a \<and>
             kspace_display_data im1 = zeros_like a) \<or>
      (\<exists>k i. pd = Raw_data k \<and> np_ifft k (zeros_like k) = Inr i \<and>
             img im1 = i \<and> kspacedata im1 = k \<and>
             image_display_data im1 = map (map to_uint8) (zeros_like k) \<and>
             kspace_display_data im1 = zeros_like (zeros_like k :: real ndarray)))"
proof (cases pd)
  case (Image_data a)
  define im0 where "im0 = \<lparr>img = a, kspacedata = zeros_like a,
                 image_display_data = map (map to_uint8) a,
                 kspace_display_data = zeros_like a,
                 orig_kspacedata = zeros_like (zeros_like a :: complex ndarray),
                 kspace_abs = zeros_like (zeros_like a :: complex ndarray),
                 noise_map = zeros_like (zeros_like a :: complex ndarray),
                 signal_to_noise = 30, spikes = [], patches = []\<rparr>"
  from assms have "then_do (then_do (np_fft a (zeros_like a)) (\<lambda>k. Inr (im0\<lparr>kspacedata := k\<rparr>)))
      (\<lambda>im1. then_do (np_assign (orig_kspacedata im1) (kspacedata im1)) (\<lambda>orig.
           prepare_displays (im1\<lparr>orig_kspacedata := orig\<rparr>) (- 3) None)) = Inr im"
    unfolding Image_data init_def Let_def im0_def by simp
  then obtain k orig where k: "np_fft a (zeros_like a) = Inr k"
    and p: "prepare_displays (im0\<lparr>kspacedata := k, orig_kspacedata := orig\<rparr>) (- 3) None = Inr im"
    by (elim then_doE) auto
  have "img (im0\<lparr>kspacedata := k\<rparr>) = a" "kspacedata (im0\<lparr>kspacedata := k\<rparr>) = k"
    "image_display_data (im0\<lparr>kspacedata := k\<rparr>) = map (map to_uint8) a"
    "kspace_display_data (im0\<lparr>kspacedata := k\<rparr>) = zeros_like a"
    by (simp_all add: im0_def)
  with Image_data k p show ?thesis by blast
next
  case (Raw_data k)
  define im0 where "im0 = \<lparr>img = zeros_like k, kspacedata = k,
                 image_display_data = map (map to_uint8) (zeros_like k),
                 kspace_display_data = zeros_like (zeros_like k :: real ndarray),
                 orig_kspacedata = zeros_like k,
                 kspace_abs = zeros_like k,
                 noise_map = zeros_like k,
                 signal_to_noise = 30, spikes = [], patches = []\<rparr>"
  from assms have "then_do (then_do (np_ifft k (zeros_like k)) (\<lambda>i. Inr (im0\<lparr>img := i\<rparr>)))
      (\<lambda>im1. then_do (np_assign (orig_kspacedata im1) (kspacedata im1)) (\<lambda>orig.
           prepare_displays (im1\<lparr>orig_kspacedata := orig\<rparr>) (- 3) None)) = Inr im"
    unfolding Raw_data init_def Let_def im0_def by simp
  then obtain i orig where i: "np_ifft k (zeros_like k) = Inr i"
    and p: "prepare_displays (im0\<lparr>img := i, orig_kspacedata := orig\<rparr>) (- 3) None = Inr im"
    by (elim then_doE) auto
  have "img (im0\<lparr>img := i\<rparr>) = i" "kspacedata (im0\<lparr>img := i\<rparr>) = k"
    "image_display_data (im0\<lparr>img := i\<rparr>) = map (map to_uint8) (zeros_like k)"
    "kspace_display_data (im0\<lparr>img := i\<rparr>) = zeros_like (zeros_like k :: real ndarray)"
    by (simp_all add: im0_def)
  with Raw_data i p show ?thesis by blast
qed

lemma init_shapes_agree:
  assumes "init pd = Inr im" "case pd of Image_data a \<Rightarrow> rect a | Raw_data k \<Rightarrow> rect k"
  shows "shapes_agree im"
proof -
  from init_cases[OF assms(1)] obtain im1 orig where
    p: "prepare_displays (im1\<lparr>orig_kspacedata := orig\<rparr>) (- 3) None = Inr im"
    and c: "(\<exists>a k. pd = Image_data a \<and> np_fft a (zeros_like a) = Inr k \<and>
             img im1 = a \<and> kspacedata im1 = k \<and>
             image_display_data im1 = map (map to_uint8) a \<and>
             kspace_display_data im1 = zeros_like a) \<or>
      (\<exists>k i. pd = Raw_data k \<and> np_ifft k (zeros_like k) = Inr i \<and>
             img im1 = i \<and> kspacedata im1 = k \<and>
             image_display_data im1 = map (map to_uint8) (zeros_like k) \<and>
             kspace_display_data im1 = zeros_like (zeros_like k :: real ndarray))"
    by blast
  have "shapes_agree im1"
    using c
  proof (elim disjE exE conjE)
    fix a k
    assume pd: "pd = Image_data a" and k: "np_fft a (zeros_like a) = Inr k"
      and f: "img im1 = a" "kspacedata im1 = k"
        "image_display_data im1 = map (map to_uint8) a" "kspace_display_data im1 = zeros_like a"
    from assms(2) pd have ra: "rect a" by simp
    have rz: "rect (zeros_like a :: complex ndarray)"
      using rect_cong[OF map_length_zeros_like] ra by blast
    from k have "map length k = map length a"
      unfolding np_fft_def using map_length_np_assign[OF _ rz] by (simp add: map_length_zeros_like)
    then show ?thesis
      unfolding shapes_agree_iff f using ra rect_cong[of k a]
      by (simp add: comp_def map_length_zeros_like)
  next
    fix k i
    assume pd: "pd = Raw_data k" and i: "np_ifft k (zeros_like k) = Inr i"
      and f: "img im1 = i" "kspacedata im1 = k"
        "image_display_data im1 = map (map to_uint8) (zeros_like k)"
        "kspace_display_data im1 = zeros_like (zeros_like k :: real ndarray)"
    from assms(2) pd have rk: "rect k" by simp
    have rz: "rect (zeros_like k :: real ndarray)"
      using rect_cong[OF map_length_zeros_like] rk by blast
    from i have "map length i = map length k"
      unfolding np_ifft_def using map_length_np_assign[OF _ rz] by (simp add: map_length_zeros_like)
    then show ?thesis
      unfolding shapes_agree_iff f using rk
      by (simp add: comp_def map_length_zeros_like)
  qed
  then have "shapes_agree (im1\<lparr>orig_kspacedata := orig\<rparr>)"
    by (simp add: shapes_agree_other_fields)
  from prepare_displays_shapes_agree[OF this p] show ?thesis by simp
qed

lemma reachable_shapes_agree: "reachable im \<Longrightarrow> shapes_agree im"
proof (induction rule: reachable.induct)
  case (reachable_init a im)
  then show ?case using init_shapes_agree[of "Image_data a" im] by simp
next
  case (reachable_init_raw k im)
  then show ?case using init_shapes_agree[of "Raw_data k" im] by simp
next
  case (reachable_op im op im')
  then show ?case using run_op_shapes_agree by blast
qed

lemma reachable_run_if: "reachable im \<Longrightarrow> run_if b op im = Inr im' \<Longrightarrow> reachable im'"
  by (cases b) (auto simp: run_if_def intro: reachable_op)

lemma then_do_run_opE:
  assumes "then_do (run_op op im) f = Inr im'" "reachable im"
  obtains x where "reachable x" "f x = Inr im'"
  using assms by (elim then_doE) (blast intro: reachable_op)

lemma then_do_run_ifE:
  assumes "then_do (run_if b op im) f = Inr im'" "reachable im"
  obtains x where "reachable x" "f x = Inr im'"
  using assms by (elim then_doE) (blast intro: reachable_run_if)

text \<open>A recompute is a sequence of operations, so it leads from a state of the engine to
  a state of the engine.\<close>

lemma reachable_image_change:
  assumes "reachable im" "image_change ui randn im = Inr im'"
  shows "reachable im'"
  using assms(2) assms(1) unfolding image_change_def Let_def
  apply -
  apply (erule then_do_run_opE, assumption)
  apply (erule then_do_run_opE, assumption)
  apply (erule then_do_run_ifE, assumption)
  apply (erule then_do_run_opE, assumption)
  apply (erule then_do_run_opE, assumption)
  apply (erule then_do_run_opE, assumption)
  apply (erule then_do_run_ifE, assumption)
  apply (erule then_do_run_ifE, assumption)
  apply (erule then_do_run_opE, assumption)
  apply (erule then_do_run_opE, assumption)
  apply (erule then_do_run_ifE, assumption)
  apply (erule then_do_run_ifE, assumption)
  apply (erule then_do_run_ifE, assumption)
  apply (erule then_do_run_ifE, assumption)
  apply (erule then_do_run_opE, assumption)
  apply (erule reachable_op[rotated], assumption)
  done

lemma concat_empty_cong:
  assumes "map length a = map length b"
  shows "(concat a = []) = (concat b = [])"
proof -
  have "length (concat a) = length (concat b)"
    by (simp only: length_concat assms)
  then show ?thesis by (metis length_0_conv)
qed

lemma np_max_succeeds: "concat a \<noteq> [] \<Longrightarrow> \<exists>m. np_max a = Inr m"
  by (simp add: np_max_def)

lemma normalise_succeeds: "concat f \<noteq> [] \<Longrightarrow> \<exists>g. normalise f = Inr g"
  by (simp add: normalise_def np_min_def np_max_def Let_def)

lemma apply_window_succeeds: "concat f \<noteq> [] \<Longrightarrow> \<exists>g. apply_window f w = Inr g"
  by (simp add: apply_window_def np_min_def np_max_def Let_def)

lemma then_do_Inr_I: "r = Inr x \<Longrightarrow> then_do r f = f x"
  by (simp add: then_do_def)

lemma prepare_displays_succeeds:
  assumes "shapes_agree im" "map length (kspace_abs im) = map length (kspacedata im)"
    "concat (kspacedata im) \<noteq> []"
  shows "\<exists>im'. prepare_displays im kscale lut = Inr im'"
proof -
  from assms(1) have r: "rect (kspacedata im)"
     and m: "map length (img im) = map length (kspacedata im)"
     "map length (image_display_data im) = map length (kspacedata im)"
     "map length (kspace_display_data im) = map length (kspacedata im)"
    by (simp_all only: shapes_agree_iff)
  have ne: "concat (img im) \<noteq> []" using concat_empty_cong[OF m(1)] assms(3) by simp
  from apply_window_succeeds[OF ne] obtain img' where w: "apply_window (img im) lut = Inr img'"
    by blast
  note mw = map_length_apply_window[OF w]
  let ?abs1 = "map (map cmod) (kspacedata im)"
  have ma: "map length ?abs1 = map length (kspacedata im)" by (simp add: comp_def)
  have a1: "np_assign (kspace_abs im) ?abs1 = Inr ?abs1"
    using rect_cong[OF assms(2)] r by (intro np_assign_same_shape) (simp_all add: ma assms(2))
  have ne1: "concat ?abs1 \<noteq> []" using concat_empty_cong[OF ma] assms(3) by simp
  from np_max_succeeds[OF ne1] obtain mx where mx: "np_max ?abs1 = Inr mx" by blast
  let ?step = "if mx > 0 then
                (let scaling_c = 10 powr real_of_int kscale
                 in normalise (map (map (\<lambda>x. ln (1 + x * scaling_c))) ?abs1))
              else Inr ?abs1"
  have "\<exists>abs2. ?step = Inr abs2 \<and> map length abs2 = map length (kspacedata im)"
  proof (cases "mx > 0")
    case True
    let ?l = "map (map (\<lambda>x. ln (1 + x * 10 powr real_of_int kscale))) ?abs1"
    have ml: "map length ?l = map length (kspacedata im)" by (simp add: comp_def)
    then have "concat ?l \<noteq> []" using concat_empty_cong[OF ml] assms(3) by simp
    from normalise_succeeds[OF this] obtain g where g: "normalise ?l = Inr g" by blast
    from map_length_normalise[OF g] ml have "map length g = map length (kspacedata im)" by simp
    with True g show ?thesis by (simp add: Let_def)
  next
    case False
    then show ?thesis by (simp add: ma)
  qed
  then obtain abs2 where s: "?step = Inr abs2"
    and m2: "map length abs2 = map length (kspacedata im)" by blast
  have i: "np_assign (image_display_data im) (map (map to_uint8) img')
             = Inr (map (map to_uint8) img')"
    using rect_cong[OF m(2)] r by (intro np_assign_same_shape) (simp_all add: comp_def mw m)
  have k: "np_assign (kspace_display_data im) (map (map to_uint8) abs2)
             = Inr (map (map to_uint8) abs2)"
    using rect_cong[OF m(3)] r by (intro np_assign_same_shape) (simp_all add: comp_def m2 m)
  show ?thesis
    unfolding prepare_displays_def
    by (simp only: then_do_Inr_I[OF w] then_do_Inr_I[OF a1] then_do_Inr_I[OF mx]
        then_do_Inr_I[OF s] then_do_Inr_I[OF i] then_do_Inr_I[OF k]) blast
qed

text \<open>The constructor returns an engine state for every rectangular image with at least
  one sample.\<close>

lemma init_succeeds:
  assumes "rect a" "concat a \<noteq> []"
  shows "\<exists>im. init (Image_data a) = Inr im"
proof -
  define im0 where "im0 = \<lparr>img = a, kspacedata = zeros_like a,
                 image_display_data = map (map to_uint8) a,
                 kspace_display_data = zeros_like a,
                 orig_kspacedata = zeros_like (zeros_like a :: complex ndarray),
                 kspace_abs = zeros_like (zeros_like a :: complex ndarray),
                 noise_map = zeros_like (zeros_like a :: complex ndarray),
                 signal_to_noise = 30, spikes = [], patches = []\<rparr>"
  have i: "init (Image_data a) = then_do (then_do (np_fft a (zeros_like a)) (\<lambda>k. Inr (im0\<lparr>kspacedata := k\<rparr>)))
      (\<lambda>im1. then_do (np_assign (orig_kspacedata im1) (kspacedata im1)) (\<lambda>orig.
           prepare_displays (im1\<lparr>orig_kspacedata := orig\<rparr>) (- 3) None))"
    unfolding init_def Let_def im0_def by simp
  let ?k = "fftshift (fft2 (ifftshift (map (map complex_of_real) a)))"
  have f: "np_fft a (zeros_like a) = Inr ?k"
    using assms(1) by (rule np_fft_value) (simp add: map_length_zeros_like)
  have rz: "rect (zeros_like a :: complex ndarray)"
    using rect_cong[OF map_length_zeros_like] assms(1) by blast
  from f have mk: "map length ?k = map length a"
    unfolding np_fft_def using map_length_np_assign[OF _ rz] by (simp add: map_length_zeros_like)
  then have rk: "rect ?k" using rect_cong assms(1) by blast
  have rzz: "rect (zeros_like (zeros_like a :: complex ndarray) :: complex ndarray)"
    using rect_cong[OF map_length_zeros_like, of "zeros_like a :: complex ndarray"] rz by blast
  have "np_assign (zeros_like (zeros_like a :: complex ndarray) :: complex ndarray) ?k = Inr ?k"
    using rzz by (rule np_assign_same_shape) (simp add: map_length_zeros_like mk)
  then have o: "np_assign (orig_kspacedata im0) ?k = Inr ?k"
    by (simp add: im0_def)
  let ?im2 = "im0\<lparr>kspacedata := ?k, orig_kspacedata := ?k\<rparr>"
  have "shapes_agree ?im2"
    unfolding shapes_agree_iff using rk mk by (simp add: im0_def comp_def map_length_zeros_like)
  moreover have "map length (kspace_abs ?im2) = map length (kspacedata ?im2)"
    by (simp add: im0_def map_length_zeros_like mk)
  moreover have "concat (kspacedata ?im2) \<noteq> []"
    using concat_empty_cong[OF mk] assms(2) by simp
  ultimately obtain im where "prepare_displays ?im2 (- 3) None = Inr im"
    using prepare_displays_succeeds by blast
  then have "init (Image_data a) = Inr im"
    unfolding i by (simp add: f o then_do_def)
  then show ?thesis ..
qed

text \<open>
  Claim C9. In every state of the engine (the result of the constructor on a rectangular
  array, and the result of any operation on a state, so also of a whole recompute) the
  image, the image display buffer, the k-space display buffer and the working k-space are
  rectangular arrays of one shape. An operation that does not call \<^verbatim>\<open>resize_arrays\<close>
  (every operation but the resize itself and \<^verbatim>\<open>undersample\<close> with a factor above 1 and
  \<open>compress\<close> set) keeps the invariant and leaves the shape of the working k-space as it
  was.
\<close>

theorem shape_consistency:
  "(reachable im \<longrightarrow> shapes_agree im) \<and>
   (shapes_agree im \<and> \<not> calls_resize_arrays op \<and> run_op op im = Inr im' \<longrightarrow>
      shapes_agree im' \<and> shape (kspacedata im') = shape (kspacedata im))"
proof -
  have "shape (kspacedata im') = shape (kspacedata im)"
    if "shapes_agree im" "\<not> calls_resize_arrays op" "run_op op im = Inr im'"
    using run_op_same_shape[OF that] by (rule shape_cong)
  then show ?thesis
    using reachable_shapes_agree run_op_shapes_agree by blast
qed

theorem shape_consistency_witness:
  "\<exists>im im'. rect [[1, 2], [3, 4::real]] \<and> init (Image_data [[1, 2], [3, 4]]) = Inr im \<and>
      reachable im \<and> shapes_agree im \<and>
      \<not> calls_resize_arrays (High_pass_filter 50) \<and>
      run_op (High_pass_filter 50) im = Inr im' \<and>
      reachable im' \<and> shapes_agree im' \<and> shape (kspacedata im') = shape (kspacedata im)"
proof -
  let ?a = "[[1, 2], [3, 4::real]]"
  have r: "rect ?a" by (simp add: rect_def shape1_def)
  have "concat ?a \<noteq> []" by simp
  from init_succeeds[OF r this] obtain im where i: "init (Image_data ?a) = Inr im" by blast
  from r i have re: "reachable im" by (rule reachable_init)
  define im' where "im' = im\<lparr>kspacedata := high_pass_filter (kspacedata im) 50\<rparr>"
  have op: "run_op (High_pass_filter 50) im = Inr im'" by (simp add: im'_def)
  have nr: "\<not> calls_resize_arrays (High_pass_filter 50)" by simp
  from re op have re': "reachable im'" by (rule reachable_op)
  from shape_consistency[of im "High_pass_filter 50" im'] re
  have sa: "shapes_agree im" by blast
  from shape_consistency[of im "High_pass_filter 50" im'] sa nr op
  have sh: "shapes_agree im'" "shape (kspacedata im') = shape (kspacedata im)" by blast+
  from r i re sa nr op re' sh show ?thesis by blast
qed

end
